theory Spec2Isabelle
  imports Complex_Main "HOL-Library.Product_Lexorder"
begin

section \<open>Python strings\<close>

text \<open>
  A Python \<open>str\<close> is modelled as a HOL \<open>string\<close>, one \<open>char\<close> per code point, so the
  model covers the strings whose code points lie below 256. The character classes below
  are those of Python's \<open>re\<close> module and of \<open>str\<close> methods on that range.
\<close>

definition code :: "char \<Rightarrow> int" where
  \<comment> \<open>\<open>ord(c)\<close>\<close>
  "code c = of_char c"

definition is_word :: "char \<Rightarrow> bool" where
  \<comment> \<open>\<open>\w\<close> of \<open>re\<close> on a \<open>str\<close> pattern\<close>
  "is_word c = (let n = code c in
      (48 \<le> n \<and> n \<le> 57) \<or> (65 \<le> n \<and> n \<le> 90) \<or> n = 95 \<or> (97 \<le> n \<and> n \<le> 122)
      \<or> n = 170 \<or> n = 178 \<or> n = 179 \<or> n = 181 \<or> n = 185 \<or> n = 186
      \<or> (188 \<le> n \<and> n \<le> 190) \<or> (192 \<le> n \<and> n \<le> 214)
      \<or> (216 \<le> n \<and> n \<le> 246) \<or> (248 \<le> n \<and> n \<le> 255))"

definition is_space :: "char \<Rightarrow> bool" where
  \<comment> \<open>\<open>\s\<close> of \<open>re\<close>, and the characters \<open>str.strip()\<close> removes\<close>
  "is_space c = (let n = code c in
      (9 \<le> n \<and> n \<le> 13) \<or> (28 \<le> n \<and> n \<le> 32) \<or> n = 133 \<or> n = 160)"

definition is_digit :: "char \<Rightarrow> bool" where
  \<comment> \<open>\<open>\d\<close> of \<open>re\<close>\<close>
  "is_digit c = (let n = code c in 48 \<le> n \<and> n \<le> 57)"

definition lower_char :: "char \<Rightarrow> char" where
  "lower_char c = (let n = code c in
      if (65 \<le> n \<and> n \<le> 90) \<or> (192 \<le> n \<and> n \<le> 214) \<or> (216 \<le> n \<and> n \<le> 222)
      then char_of (n + 32) else c)"

definition lower :: "string \<Rightarrow> string" where
  \<comment> \<open>\<open>str.lower()\<close>\<close>
  "lower s = map lower_char s"

definition strip :: "string \<Rightarrow> string" where
  \<comment> \<open>\<open>str.strip()\<close>\<close>
  "strip s = rev (dropWhile is_space (rev (dropWhile is_space s)))"

definition startswith :: "string \<Rightarrow> string \<Rightarrow> bool" where
  "startswith s p = (take (length p) s = p)"

definition endswith :: "string \<Rightarrow> string \<Rightarrow> bool" where
  "endswith s p = (length p \<le> length s \<and> drop (length s - length p) s = p)"

fun contains :: "string \<Rightarrow> string \<Rightarrow> bool" where
  \<comment> \<open>\<open>needle in hay\<close>\<close>
  "contains needle [] = (needle = [])"
| "contains needle (c # cs) = (startswith (c # cs) needle \<or> contains needle cs)"



section \<open>Regular expressions as Python's \<open>re\<close> matches them\<close>

text \<open>
  The source rewrites SQL text with \<open>re.sub\<close>, \<open>re.search\<close> and \<open>re.split\<close>. The patterns
  are transcribed into the datatype \<open>re\<close> and matched by a backtracking matcher that
  returns, for a pattern and a position, every way the pattern can match there, in the
  order in which a backtracking engine tries them: a greedy star tries the longest
  repetition first, a lazy star the shortest, an alternation its left branch first. The
  head of the list is the match \<open>re\<close> reports. A position is the character before it (for
  \<open>\b\<close> and look-behind), the text from it on, and the groups captured so far.
\<close>

datatype re =
    Eps
  | Lit char
  | LitI char
  | Class "char \<Rightarrow> bool"
  | Seq re re
  | Alt re re
  | Star re
  | Lazy re
  | Group re
  | WordB
  | NotBehind "char \<Rightarrow> bool"
  | NotAhead re
  | Dollar
  | DollarM

datatype mstate = MState (prev_char: "char option") (remaining: string) (groups: "string list")

definition consumed :: "mstate \<Rightarrow> mstate \<Rightarrow> string" where
  "consumed st st' = take (length (remaining st) - length (remaining st')) (remaining st)"

definition step_char :: "(char \<Rightarrow> bool) \<Rightarrow> mstate \<Rightarrow> mstate list" where
  "step_char P st = (case remaining st of
       [] \<Rightarrow> []
     | x # xs \<Rightarrow> if P x then [MState (Some x) xs (groups st)] else [])"

definition word_before :: "mstate \<Rightarrow> bool" where
  "word_before st = (case prev_char st of None \<Rightarrow> False | Some p \<Rightarrow> is_word p)"

definition word_after :: "mstate \<Rightarrow> bool" where
  "word_after st = (case remaining st of [] \<Rightarrow> False | x # _ \<Rightarrow> is_word x)"

definition newline :: char where
  "newline = char_of (10 :: int)"

fun star_iter :: "(mstate \<Rightarrow> mstate list) \<Rightarrow> nat \<Rightarrow> mstate \<Rightarrow> mstate list" where
  "star_iter m 0 st = [st]"
| "star_iter m (Suc n) st =
     concat (map (\<lambda>st'. if length (remaining st') < length (remaining st)
                          then star_iter m n st' else []) (m st)) @ [st]"

fun lazy_iter :: "(mstate \<Rightarrow> mstate list) \<Rightarrow> nat \<Rightarrow> mstate \<Rightarrow> mstate list" where
  "lazy_iter m 0 st = [st]"
| "lazy_iter m (Suc n) st =
     st # concat (map (\<lambda>st'. if length (remaining st') < length (remaining st)
                               then lazy_iter m n st' else []) (m st))"

primrec match :: "re \<Rightarrow> mstate \<Rightarrow> mstate list" where
  "match Eps st = [st]"
| "match (Lit c) st = step_char (\<lambda>x. x = c) st"
| "match (LitI c) st = step_char (\<lambda>x. lower_char x = lower_char c) st"
| "match (Class P) st = step_char P st"
| "match (Seq r1 r2) st = concat (map (match r2) (match r1 st))"
| "match (Alt r1 r2) st = match r1 st @ match r2 st"
| "match (Star r) st = star_iter (match r) (length (remaining st)) st"
| "match (Lazy r) st = lazy_iter (match r) (length (remaining st)) st"
| "match (Group r) st =
     map (\<lambda>st'. MState (prev_char st') (remaining st') (groups st' @ [consumed st st']))
         (match r st)"
| "match WordB st = (if word_before st \<noteq> word_after st then [st] else [])"
| "match (NotBehind P) st =
     (case prev_char st of None \<Rightarrow> [st] | Some p \<Rightarrow> if P p then [] else [st])"
| "match (NotAhead r) st = (if match r st = [] then [st] else [])"
| "match Dollar st = (if remaining st = [] \<or> remaining st = [newline] then [st] else [])"
| "match DollarM st =
     (case remaining st of [] \<Rightarrow> [st] | x # _ \<Rightarrow> if x = newline then [st] else [])"

definition seqs :: "re list \<Rightarrow> re" where
  "seqs rs = foldr Seq rs Eps"

definition lit :: "string \<Rightarrow> re" where
  "lit s = seqs (map Lit s)"

definition liti :: "string \<Rightarrow> re" where
  "liti s = seqs (map LitI s)"

definition many1 :: "re \<Rightarrow> re" where
  \<comment> \<open>\<open>r+\<close>\<close>
  "many1 r = Seq r (Star r)"

definition alts :: "re list \<Rightarrow> re" where
  "alts rs = foldr Alt (butlast rs) (last rs)"

text \<open>
  The match \<open>re\<close> finds at a position: the replacement text input (the matched text and
  its groups) and the position after it. None of the source's patterns matches the empty
  string; a match that consumes nothing counts as none.
\<close>

definition match_at :: "re \<Rightarrow> char option \<Rightarrow> string \<Rightarrow> (string \<times> string list \<times> mstate) option" where
  "match_at r p s = (case match r (MState p s []) of
       [] \<Rightarrow> None
     | st' # _ \<Rightarrow> if length (remaining st') < length s
                 then Some (consumed (MState p s []) st', groups st', st') else None)"

function re_sub :: "re \<Rightarrow> (string \<Rightarrow> string list \<Rightarrow> string) \<Rightarrow> char option \<Rightarrow> string \<Rightarrow> string" where
  "re_sub r repl p [] = []"
| "re_sub r repl p (c # cs) = (case match_at r p (c # cs) of
       None \<Rightarrow> c # re_sub r repl (Some c) cs
     | Some (m, gs, st') \<Rightarrow>
         if length (remaining st') < length (c # cs)
         then repl m gs @ re_sub r repl (prev_char st') (remaining st')
         else c # re_sub r repl (Some c) cs)"
  by pat_completeness auto
termination
  by (relation "measure (\<lambda>(r, repl, p, s). length s)") auto

fun search_from :: "re \<Rightarrow> char option \<Rightarrow> string \<Rightarrow> bool" where
  "search_from r p [] = (match r (MState p [] []) \<noteq> [])"
| "search_from r p (c # cs) = (match r (MState p (c # cs) []) \<noteq> [] \<or> search_from r (Some c) cs)"

definition re_search :: "re \<Rightarrow> string \<Rightarrow> bool" where
  \<comment> \<open>\<open>re.search(r, s) is not None\<close>\<close>
  "re_search r s = search_from r None s"

function re_split_from :: "re \<Rightarrow> char option \<Rightarrow> string \<Rightarrow> string \<Rightarrow> string list" where
  "re_split_from r p [] cur = [cur]"
| "re_split_from r p (c # cs) cur = (case match_at r p (c # cs) of
       None \<Rightarrow> re_split_from r (Some c) cs (cur @ [c])
     | Some (m, gs, st') \<Rightarrow>
         if length (remaining st') < length (c # cs)
         then cur # re_split_from r (prev_char st') (remaining st') []
         else re_split_from r (Some c) cs (cur @ [c]))"
  by pat_completeness auto
termination
  by (relation "measure (\<lambda>(r, p, s, cur). length s)") auto

definition re_split :: "re \<Rightarrow> string \<Rightarrow> string list" where
  \<comment> \<open>\<open>re.split(r, s)\<close> for a pattern without groups\<close>
  "re_split r s = re_split_from r None s []"

fun find_from :: "re \<Rightarrow> char option \<Rightarrow> string \<Rightarrow> string option" where
  "find_from r p [] = (case match r (MState p [] []) of [] \<Rightarrow> None | st' # _ \<Rightarrow> Some [])"
| "find_from r p (c # cs) = (case match r (MState p (c # cs) []) of
       [] \<Rightarrow> find_from r (Some c) cs
     | st' # _ \<Rightarrow> Some (consumed (MState p (c # cs) []) st'))"

definition re_find :: "re \<Rightarrow> string \<Rightarrow> string option" where
  \<comment> \<open>\<open>m = re.search(r, s)\<close>: \<open>None\<close>, or \<open>m.group(0)\<close>\<close>
  "re_find r s = find_from r None s"

function re_findall_from :: "re \<Rightarrow> char option \<Rightarrow> string \<Rightarrow> string list list" where
  "re_findall_from r p [] = []"
| "re_findall_from r p (c # cs) = (case match_at r p (c # cs) of
       None \<Rightarrow> re_findall_from r (Some c) cs
     | Some (m, gs, st') \<Rightarrow>
         if length (remaining st') < length (c # cs)
         then gs # re_findall_from r (prev_char st') (remaining st')
         else re_findall_from r (Some c) cs)"
  by pat_completeness auto
termination
  by (relation "measure (\<lambda>(r, p, s). length s)") auto

definition re_findall :: "re \<Rightarrow> string \<Rightarrow> string list" where
  \<comment> \<open>\<open>re.findall(r, s)\<close> for a pattern with one group: the group of every match\<close>
  "re_findall r s = map hd (re_findall_from r None s)"









section \<open>Python integers as text\<close>

definition digit_char :: "int \<Rightarrow> char" where
  "digit_char d = char_of (48 + d)"

function decimal :: "int \<Rightarrow> string" where
  "decimal n = (if n < 10 then [digit_char n] else decimal (n div 10) @ [digit_char (n mod 10)])"
  by pat_completeness auto
termination
  by (relation "measure nat") auto

declare decimal.simps [simp del]

definition str_of_int :: "int \<Rightarrow> string" where
  \<comment> \<open>\<open>str(i)\<close>, as an f-string formats an \<open>int\<close>\<close>
  "str_of_int i = (if i < 0 then CHR ''-'' # decimal (- i) else decimal i)"

definition int_of_digits :: "string \<Rightarrow> int" where
  \<comment> \<open>\<open>int(s)\<close> for a string of decimal digits, as \<open>(\d+)\<close> captures\<close>
  "int_of_digits s = foldl (\<lambda>acc c. 10 * acc + (code c - 48)) 0 s"

section \<open>The SQL Guard's text rewrites (sql\_guard.py)\<close>

definition backtick :: char where
  "backtick = CHR 0x60"

definition quote_char :: char where
  "quote_char = CHR 0x27"

definition RESERVED_LIKE :: "string set" where
  "RESERVED_LIKE = {''check'', ''desc'', ''key'', ''user''}"

definition DEFAULT_DERIVED_ALIASES :: "string set" where
  "DEFAULT_DERIVED_ALIASES = {''d'', ''date'', ''cnt'', ''count'', ''total'', ''num'', ''dt'', ''day''}"

definition normalize_name :: "string \<Rightarrow> string" where
  \<comment> \<open>\<open>_normalize\<close>: \<open>name.replace("`", "").lower()\<close>\<close>
  "normalize_name name = lower (filter (\<lambda>c. c \<noteq> backtick) name)"

definition re_trailing_semicolon :: re where
  \<comment> \<open>\<open>;\s*$\<close>\<close>
  "re_trailing_semicolon = seqs [Lit (CHR '';''), Star (Class is_space), Dollar]"

definition strip_trailing_semicolon :: "string \<Rightarrow> string" where
  "strip_trailing_semicolon sql = re_sub re_trailing_semicolon (\<lambda>m gs. []) None (strip sql)"

definition re_block_comment :: re where
  \<comment> \<open>\<open>/\*.*?\*/\<close> with \<open>re.S\<close>\<close>
  "re_block_comment = seqs [lit ''/*'', Lazy (Class (\<lambda>c. True)), lit ''*/'']"

definition re_line_comment :: re where
  \<comment> \<open>\<open>--.*?$\<close> with \<open>re.M\<close>\<close>
  "re_line_comment = seqs [lit ''--'', Lazy (Class (\<lambda>c. c \<noteq> newline)), DollarM]"

definition remove_comments :: "string \<Rightarrow> string" where
  "remove_comments sql =
     re_sub re_line_comment (\<lambda>m gs. '' '') None
       (re_sub re_block_comment (\<lambda>m gs. '' '') None sql)"

definition re_limit_word :: re where
  \<comment> \<open>\<open>(?i)\blimit\b\<close>\<close>
  "re_limit_word = seqs [WordB, liti ''limit'', WordB]"

definition has_limit :: "string \<Rightarrow> bool" where
  "has_limit sql = re_search re_limit_word sql"

definition re_limit_offset_count :: re where
  \<comment> \<open>\<open>(?i)\blimit\s*(\d+)\s*,\s*(\d+)\<close>\<close>
  "re_limit_offset_count =
     seqs [WordB, liti ''limit'', Star (Class is_space), Group (many1 (Class is_digit)),
           Star (Class is_space), Lit (CHR '',''), Star (Class is_space),
           Group (many1 (Class is_digit))]"

definition re_limit_single :: re where
  \<comment> \<open>\<open>(?i)\blimit\s*(\d+)(?!\s*,)\<close>\<close>
  "re_limit_single =
     seqs [WordB, liti ''limit'', Star (Class is_space), Group (many1 (Class is_digit)),
           NotAhead (Seq (Star (Class is_space)) (Lit (CHR '','')))]"

definition repl_offset_count :: "int \<Rightarrow> string \<Rightarrow> string list \<Rightarrow> string" where
  "repl_offset_count max_limit m gs =
     (let offset = int_of_digits (gs ! 0);
          count = min (int_of_digits (gs ! 1)) max_limit
      in ''LIMIT '' @ str_of_int offset @ '', '' @ str_of_int count)"

definition repl_single :: "int \<Rightarrow> string \<Rightarrow> string list \<Rightarrow> string" where
  "repl_single max_limit m gs =
     (let count = min (int_of_digits (gs ! 0)) max_limit
      in ''LIMIT '' @ str_of_int count)"

definition clamp_limit :: "string \<Rightarrow> int \<Rightarrow> string" where
  "clamp_limit sql max_limit =
     (let new_sql = re_sub re_limit_offset_count (repl_offset_count max_limit) None sql;
          new_sql2 = re_sub re_limit_single (repl_single max_limit) None new_sql
      in new_sql2)"

definition re_interval :: re where
  \<comment> \<open>\<open>(?i)\bINTERVAL\s+'(\d+)'\s+(SECOND|MINUTE|HOUR|DAY|WEEK|MONTH|QUARTER|YEAR)\<close>\<close>
  "re_interval =
     seqs [WordB, liti ''INTERVAL'', many1 (Class is_space), Lit quote_char,
           Group (many1 (Class is_digit)), Lit quote_char, many1 (Class is_space),
           Group (alts [liti ''SECOND'', liti ''MINUTE'', liti ''HOUR'', liti ''DAY'',
                        liti ''WEEK'', liti ''MONTH'', liti ''QUARTER'', liti ''YEAR''])]"

definition fix_interval_literals :: "string \<Rightarrow> string" where
  "fix_interval_literals sql =
     re_sub re_interval (\<lambda>m gs. ''INTERVAL '' @ gs ! 0 @ '' '' @ gs ! 1) None sql"

definition quote_or_word :: "char \<Rightarrow> bool" where
  \<comment> \<open>the class \<open>[`\w]\<close>\<close>
  "quote_or_word c = (c = backtick \<or> is_word c)"

definition re_reserved :: "string \<Rightarrow> re" where
  \<comment> \<open>\<open>(?i)(?<![`\w]){kw}(?![`\w])\<close>\<close>
  "re_reserved kw = seqs [NotBehind quote_or_word, liti kw, NotAhead (Class quote_or_word)]"

definition quote_one :: "string \<Rightarrow> string \<Rightarrow> string" where
  "quote_one kw sql = re_sub (re_reserved kw) (\<lambda>m gs. backtick # m @ [backtick]) None sql"

text \<open>
  \<open>for kw in RESERVED_LIKE\<close> visits the set in an order Python does not fix; the order is
  an argument, a list of the set's elements.
\<close>

definition quote_reserved_identifiers :: "string list \<Rightarrow> string \<Rightarrow> string" where
  "quote_reserved_identifiers order sql = foldl (\<lambda>sql kw. quote_one kw sql) sql order"

definition re_quoted_asc :: re where
  \<comment> \<open>\<open>`\s*asc\s*`\<close> with \<open>re.I\<close>\<close>
  "re_quoted_asc =
     seqs [Lit backtick, Star (Class is_space), liti ''asc'', Star (Class is_space), Lit backtick]"

definition re_quoted_desc :: re where
  \<comment> \<open>\<open>`\s*desc\s*`\<close> with \<open>re.I\<close>\<close>
  "re_quoted_desc =
     seqs [Lit backtick, Star (Class is_space), liti ''desc'', Star (Class is_space), Lit backtick]"

definition unquote_order_dir :: "string \<Rightarrow> string" where
  "unquote_order_dir sql =
     re_sub re_quoted_desc (\<lambda>m gs. ''DESC'') None
       (re_sub re_quoted_asc (\<lambda>m gs. ''ASC'') None sql)"

definition normalize_sql_text :: "string list \<Rightarrow> string \<Rightarrow> string" where
  \<comment> \<open>the four rewrites \<open>validate_and_rewrite\<close> applies to the emitted SQL, in its order\<close>
  "normalize_sql_text order base_sql =
     unquote_order_dir (quote_reserved_identifiers order
       (fix_interval_literals (strip_trailing_semicolon base_sql)))"

section \<open>SQL expression trees\<close>

text \<open>
  The source parses SQL into the expression trees of the library \<open>sqlglot\<close> and reads
  them through a few members: the class of a node (\<open>isinstance\<close>, \<open>find_all\<close>), its
  \<open>name\<close>, its arguments (\<open>args.get\<close>, \<open>set\<close>, \<open>this\<close>, \<open>expressions\<close>). A node is modelled by
  these: its class, the text of its \<open>name\<close>, and its child expressions under their
  argument keys (a list-valued argument has one entry per element, in order). The classes
  the source names are constructors; every other class is \<open>exp_Other\<close>.
\<close>

datatype node_class =
    exp_Select | exp_Union | exp_With | exp_Table | exp_Column | exp_Identifier | exp_Alias
  | exp_Where | exp_Join | exp_Group | exp_Order | exp_Limit
  | exp_Count | exp_Sum | exp_Avg | exp_Min | exp_Max
  | exp_And | exp_Anonymous | exp_Other string

datatype expr = Expr (klass: node_class) (node_name: string) (args: "(string \<times> expr) list")

definition arg :: "expr \<Rightarrow> string \<Rightarrow> expr option" where
  \<comment> \<open>\<open>e.args.get(key)\<close>\<close>
  "arg e key = map_of (args e) key"

definition arg_list :: "expr \<Rightarrow> string \<Rightarrow> expr list" where
  \<comment> \<open>a list-valued argument, as \<open>sel.expressions\<close>\<close>
  "arg_list e key = map snd (filter (\<lambda>(a, c). a = key) (args e))"



definition children :: "expr \<Rightarrow> expr list" where
  "children e = map snd (args e)"

lemma size_children: "sum_list (map size (children e)) < size e"
proof (cases e)
  case (Expr k n as)
  have "sum_list (map size (map snd as)) \<le> size_list (size_prod (\<lambda>x. 0) size) as"
    by (induction as) auto
  then show ?thesis using Expr by (simp add: children_def)
qed

text \<open>\<open>find_all\<close> walks the tree breadth first.\<close>

function bfs :: "expr list \<Rightarrow> expr list" where
  "bfs [] = []"
| "bfs (e # queue) = e # bfs (queue @ children e)"
  by pat_completeness auto
termination
  by (relation "measure (\<lambda>q. sum_list (map size q))") (auto simp: size_children)

definition find_all :: "expr \<Rightarrow> node_class \<Rightarrow> expr list" where
  "find_all e cls = filter (\<lambda>n. klass n = cls) (bfs [e])"

definition find_first :: "expr \<Rightarrow> node_class \<Rightarrow> expr option" where
  \<comment> \<open>\<open>e.find(cls)\<close>\<close>
  "find_first e cls = (case find_all e cls of [] \<Rightarrow> None | n # _ \<Rightarrow> Some n)"

text \<open>
  \<open>for s in expr.find_all(exp.Select): if s.args.get(key) is not None: s.set(key, None)\<close>
  removes the argument from every Select node that the walk reaches; the walk lists the
  children of a node after the loop body has changed it, so it never enters a removed
  subtree.
\<close>

primrec strip_select_arg :: "string \<Rightarrow> expr \<Rightarrow> expr" where
  "strip_select_arg key (Expr k n as) =
     Expr k n (filter (\<lambda>(a, c). \<not> (k = exp_Select \<and> a = key))
                 (map (map_prod id (strip_select_arg key)) as))"

text \<open>
  \<open>e.find(cls)\<close> returns the first node of the class on the breadth-first walk, and the
  source then changes that node in place. The model walks with the path of every node
  (the positions of the arguments to follow from the root) and rebuilds the tree with
  the node at the path changed.
\<close>

lemma size_enumerate_children:
  "sum_list (map (\<lambda>x. size (snd x)) (map (\<lambda>(i, c). (p @ [i], c)) (enumerate n cs)))
     = sum_list (map size cs)"
  by (induction cs arbitrary: n) auto

function bfs_paths :: "(nat list \<times> expr) list \<Rightarrow> (nat list \<times> expr) list" where
  "bfs_paths [] = []"
| "bfs_paths ((p, e) # queue) =
     (p, e) # bfs_paths (queue @ map (\<lambda>(i, c). (p @ [i], c)) (enumerate 0 (children e)))"
  by pat_completeness auto
termination
  by (relation "measure (\<lambda>q. sum_list (map (\<lambda>x. size (snd x)) q))")
     (auto simp: size_enumerate_children size_children simp del: map_map)

definition find_path :: "expr \<Rightarrow> node_class \<Rightarrow> (nat list \<times> expr) option" where
  \<comment> \<open>\<open>e.find(cls)\<close> with the path of the node found\<close>
  "find_path e cls = (case filter (\<lambda>(p, n). klass n = cls) (bfs_paths [([], e)]) of
       [] \<Rightarrow> None | pn # _ \<Rightarrow> Some pn)"


lemma snd_enumerate_paths:
  "map snd (map (\<lambda>(i, c). (p @ [i], c)) (enumerate n cs)) = cs"
  by (induction cs arbitrary: n) auto

lemma bfs_paths_bfs: "map snd (bfs_paths q) = bfs (map snd q)"
proof (induction q rule: bfs_paths.induct)
  case 1
  then show ?case by simp
next
  case (2 p e queue)
  then show ?case by (simp add: snd_enumerate_paths del: map_map)
qed

lemma map_snd_filter_klass:
  "map snd (filter (\<lambda>(p, n). klass n = cls) xs) = filter (\<lambda>n. klass n = cls) (map snd xs)"
  by (induction xs) auto

lemma find_path_find_first: "map_option snd (find_path e cls) = find_first e cls"
proof -
  have "find_all e cls = map snd (filter (\<lambda>(p, n). klass n = cls) (bfs_paths [([], e)]))"
    unfolding map_snd_filter_klass bfs_paths_bfs by (simp add: find_all_def)
  then show ?thesis
    by (cases "filter (\<lambda>(p, n). klass n = cls) (bfs_paths [([], e)])")
       (simp_all add: find_path_def find_first_def)
qed

text \<open>
  What the library computes is not part of the repository: parsing, emitting SQL text and
  the members below are arguments of the model. \<open>None\<close> stands for a call that raises.
\<close>

record sqlglot =
  parse_one :: "string \<Rightarrow> string \<Rightarrow> expr option"
    \<comment> \<open>\<open>sqlglot.parse_one(sql, read=dialect)\<close>\<close>
  sql_text :: "expr \<Rightarrow> string \<Rightarrow> string option"
    \<comment> \<open>\<open>e.sql(dialect=dialect)\<close>\<close>
  str_text :: "expr \<Rightarrow> string option"
    \<comment> \<open>\<open>str(e)\<close>\<close>
  alias_node :: "expr \<Rightarrow> expr option"
    \<comment> \<open>\<open>e.alias\<close> when it is an expression node\<close>
  join_on_text :: "expr \<Rightarrow> string option"
    \<comment> \<open>the text \<open>extract_join_conditions\<close> reads off a Join node, when \<open>join.on\<close> is truthy\<close>
  and_all :: "expr list \<Rightarrow> expr option"
    \<comment> \<open>\<open>exp.and_(*conditions)\<close>\<close>

section \<open>The SQL Guard (sql\_guard.py)\<close>

datatype schema_table = SchemaTable (table_name: string) (table_columns: "string list")

record env =
  SQL_PERMISSIVE_MODE :: "string option"
  SQL_PERMITTED_ALIASES :: "string option"

datatype guard_error =
    ChineseContent | Placeholder | SelectStar | ParseFailed | NotSelectQuery
  | UnknownTables "string set" | UnknownColumns "string set" | RewriteFailed

fun split_on :: "char \<Rightarrow> string \<Rightarrow> string list" where
  \<comment> \<open>\<open>s.split(sep)\<close> for a one-character separator\<close>
  "split_on sep [] = [[]]"
| "split_on sep (c # cs) =
     (if c = sep then [] # split_on sep cs
      else (case split_on sep cs of [] \<Rightarrow> [[c]] | p # ps \<Rightarrow> (c # p) # ps))"

definition get_permitted_aliases :: "env \<Rightarrow> string set" where
  "get_permitted_aliases e =
     (let env_val = (case SQL_PERMITTED_ALIASES e of None \<Rightarrow> [] | Some v \<Rightarrow> v);
          extra = (if env_val \<noteq> []
                   then set (map (\<lambda>s. lower (strip s))
                               (filter (\<lambda>s. strip s \<noteq> []) (split_on (CHR '','') env_val)))
                   else {})
      in DEFAULT_DERIVED_ALIASES \<union> extra)"

definition is_identifier :: "expr option \<Rightarrow> bool" where
  "is_identifier x = (case x of None \<Rightarrow> False | Some n \<Rightarrow> klass n = exp_Identifier)"

definition collect_table_names :: "expr \<Rightarrow> string set" where
  "collect_table_names expression =
     (let names = set (map (\<lambda>t. if is_identifier (arg t ''this'')
                                 then normalize_name (node_name (the (arg t ''this'')))
                                 else normalize_name (node_name t))
                           (find_all expression exp_Table))
      in names - {[]})"

definition collect_column_names :: "expr \<Rightarrow> string set" where
  "collect_column_names expression =
     set (map (\<lambda>c. normalize_name (node_name (the (arg c ''this''))))
              (filter (\<lambda>c. is_identifier (arg c ''this'')) (find_all expression exp_Column)))"

definition alias_names :: "sqlglot \<Rightarrow> expr list \<Rightarrow> string set" where
  \<comment> \<open>\<open>if isinstance(a, exp.Identifier) and a.name: aliases.add(_normalize(a.name))\<close>\<close>
  "alias_names lib es =
     set (map (\<lambda>e. normalize_name (node_name (the (alias_node lib e))))
              (filter (\<lambda>e. is_identifier (alias_node lib e)
                           \<and> node_name (the (alias_node lib e)) \<noteq> []) es))"

definition collect_select_aliases :: "sqlglot \<Rightarrow> expr \<Rightarrow> string set" where
  "collect_select_aliases lib expression =
     alias_names lib (concat (map (\<lambda>sel. arg_list sel ''expressions'')
                                  (find_all expression exp_Select)))
     \<union> alias_names lib (find_all expression exp_Alias)"

fun dict_update :: "'k \<Rightarrow> 'v \<Rightarrow> ('k \<times> 'v) list \<Rightarrow> ('k \<times> 'v) list" where
  "dict_update k v [] = [(k, v)]"
| "dict_update k v ((a, b) # d) = (if a = k then (k, v) # d else (a, b) # dict_update k v d)"

definition dict_of :: "('k \<times> 'v) list \<Rightarrow> ('k \<times> 'v) list" where
  \<comment> \<open>a dictionary built entry by entry: a repeated key keeps its last value\<close>
  "dict_of entries = foldl (\<lambda>d (k, v). dict_update k v d) [] entries"

definition table_to_columns :: "schema_table list \<Rightarrow> (string \<times> string set) list" where
  "table_to_columns m_schema =
     dict_of (map (\<lambda>t. (normalize_name (table_name t), set (map normalize_name (table_columns t))))
                  m_schema)"

definition contract_cols :: "(string \<times> string list) list \<Rightarrow> string \<Rightarrow> string set" where
  "contract_cols allowed_columns_by_table tbl =
     set (concat (map (\<lambda>(t, cs). if normalize_name t = tbl then map normalize_name cs else [])
                      allowed_columns_by_table))"

definition narrowed :: "(string \<times> string list) list \<Rightarrow> (string \<times> string set) list
    \<Rightarrow> (string \<times> string set) list" where
  "narrowed allowed_columns_by_table t2c =
     (if allowed_columns_by_table = [] then t2c
      else map (\<lambda>(tbl, cols).
                 if contract_cols allowed_columns_by_table tbl \<noteq> {}
                 then (tbl, cols \<inter> contract_cols allowed_columns_by_table tbl)
                 else (tbl, cols)) t2c)"

definition all_allowed_columns :: "schema_table list \<Rightarrow> (string \<times> string list) list \<Rightarrow> string set" where
  "all_allowed_columns m_schema allowed_columns_by_table =
     \<Union> (set (map snd (narrowed allowed_columns_by_table (table_to_columns m_schema))))"

definition py_isdigit :: "string \<Rightarrow> bool" where
  \<comment> \<open>\<open>str.isdigit()\<close>\<close>
  "py_isdigit s = (s \<noteq> [] \<and> list_all (\<lambda>c. is_digit c \<or> code c = 178 \<or> code c = 179 \<or> code c = 185) s)"

definition unknown_columns :: "sqlglot \<Rightarrow> env \<Rightarrow> expr \<Rightarrow> schema_table list
    \<Rightarrow> (string \<times> string list) list \<Rightarrow> string set" where
  "unknown_columns lib e expression m_schema allowed_columns_by_table =
     Set.filter (\<lambda>c. \<not> py_isdigit c)
       (collect_column_names expression
          - all_allowed_columns m_schema allowed_columns_by_table
          - collect_select_aliases lib expression
          - get_permitted_aliases e)"

definition re_cjk :: re where
  \<comment> \<open>the class of the code points U+4E00 to U+9FA5\<close>
  "re_cjk = Class (\<lambda>c. 19968 \<le> code c \<and> code c \<le> 40869)"

definition re_placeholder :: re where
  \<comment> \<open>\<open>specific_\w+\<close> with \<open>re.I\<close>\<close>
  "re_placeholder = seqs [liti ''specific'', Lit (CHR ''_''), many1 (Class is_word)]"

definition re_select_star :: re where
  \<comment> \<open>\<open>(?i)select\s*\*\<close>\<close>
  "re_select_star = seqs [liti ''select'', Star (Class is_space), Lit (CHR ''*'')]"

definition permissive :: "env \<Rightarrow> bool" where
  \<comment> \<open>\<open>os.getenv("SQL_PERMISSIVE_MODE", "0") == "1"\<close>\<close>
  "permissive e = (SQL_PERMISSIVE_MODE e = Some ''1'')"

definition is_single_row_agg :: "expr \<Rightarrow> bool" where
  "is_single_row_agg expr2 =
     (klass expr2 = exp_Select
      \<and> (let has_group = (find_all expr2 exp_Group \<noteq> []);
              has_agg = list_ex (\<lambda>cls. find_all expr2 cls \<noteq> [])
                          [exp_Count, exp_Sum, exp_Avg, exp_Min, exp_Max]
          in has_agg \<and> \<not> has_group))"

definition single_row_rewrite :: "sqlglot \<Rightarrow> string list \<Rightarrow> string \<Rightarrow> string \<Rightarrow> string option" where
  \<comment> \<open>the \<open>try\<close> block for single-row aggregates: \<open>Some\<close> is what it returns, \<open>None\<close> that
     control falls through to the LIMIT handling below it\<close>
  "single_row_rewrite lib order norm_sql dialect =
     (case parse_one lib norm_sql dialect of
        None \<Rightarrow> None
      | Some expr2 \<Rightarrow>
          if is_single_row_agg expr2
          then (case sql_text lib (strip_select_arg ''limit'' expr2) dialect of
                  None \<Rightarrow> Some norm_sql
                | Some cleaned \<Rightarrow> Some (normalize_sql_text order cleaned))
          else None)"

definition apply_limit :: "string \<Rightarrow> int \<Rightarrow> string" where
  \<comment> \<open>the last two statements of \<open>validate_and_rewrite\<close>\<close>
  "apply_limit norm_sql max_limit =
     (if \<not> has_limit norm_sql then norm_sql @ '' LIMIT '' @ str_of_int max_limit
      else clamp_limit norm_sql max_limit)"

definition rewritten_tree :: "env \<Rightarrow> bool \<Rightarrow> expr \<Rightarrow> expr" where
  \<comment> \<open>the tree handed to the emitter\<close>
  "rewritten_tree e keep_order_by expression =
     (if \<not> permissive e \<and> \<not> keep_order_by then strip_select_arg ''order'' expression
      else expression)"

definition validate_and_rewrite :: "sqlglot \<Rightarrow> env \<Rightarrow> string list \<Rightarrow> string \<Rightarrow> string
    \<Rightarrow> schema_table list \<Rightarrow> int \<Rightarrow> bool \<Rightarrow> (string \<times> string list) list
    \<Rightarrow> guard_error + string" where
  "validate_and_rewrite lib e order sql dialect m_schema max_limit keep_order_by
       allowed_columns_by_table =
     (let sql = remove_comments sql in
      if re_search re_cjk sql then Inl ChineseContent
      else if re_search re_placeholder sql then Inl Placeholder
      else if re_search re_select_star sql then Inl SelectStar
      else (case parse_one lib sql dialect of
          None \<Rightarrow> Inl ParseFailed
        | Some expression \<Rightarrow>
            if klass expression \<notin> {exp_Select, exp_Union, exp_With} then Inl NotSelectQuery
            else
              let allowed_tables = set (map (\<lambda>t. normalize_name (table_name t)) m_schema);
                  unknown_tables = collect_table_names expression - allowed_tables;
                  unknown_cols = unknown_columns lib e expression m_schema allowed_columns_by_table
              in
              if unknown_tables \<noteq> {} then Inl (UnknownTables unknown_tables)
              else if collect_column_names expression \<noteq> {} \<and> unknown_cols \<noteq> {}
                then Inl (UnknownColumns unknown_cols)
              else (case sql_text lib (rewritten_tree e keep_order_by expression) dialect of
                  None \<Rightarrow> Inl RewriteFailed
                | Some base_sql \<Rightarrow>
                    let norm_sql = normalize_sql_text order base_sql in
                    if permissive e then Inr norm_sql
                    else (case single_row_rewrite lib order norm_sql dialect of
                        Some out \<Rightarrow> Inr out
                      | None \<Rightarrow> Inr (apply_limit norm_sql max_limit)))))"

section \<open>Predicate and join matching (ast\_validator.py)\<close>

definition re_table_prefix :: re where
  \<comment> \<open>\<open>\b\w+\.\<close>\<close>
  "re_table_prefix = seqs [WordB, many1 (Class is_word), Lit (CHR ''.'')]"

definition ident_start :: "char \<Rightarrow> bool" where
  \<comment> \<open>the class \<open>[a-z_]\<close>\<close>
  "ident_start c = ((97 \<le> code c \<and> code c \<le> 122) \<or> c = CHR ''_'')"

definition ident_char :: "char \<Rightarrow> bool" where
  \<comment> \<open>the class \<open>[a-z0-9_]\<close>\<close>
  "ident_char c = (ident_start c \<or> is_digit c)"

definition re_not_is_null :: re where
  \<comment> \<open>\<open>\bnot\s+([a-z_][a-z0-9_]*)\s+is\s+null\b\<close>\<close>
  "re_not_is_null =
     seqs [WordB, lit ''not'', many1 (Class is_space),
           Group (Seq (Class ident_start) (Star (Class ident_char))),
           many1 (Class is_space), lit ''is'', many1 (Class is_space), lit ''null'', WordB]"

definition re_not_is_not_null :: re where
  \<comment> \<open>\<open>\bnot\s+([a-z_][a-z0-9_]*)\s+is\s+not\s+null\b\<close>\<close>
  "re_not_is_not_null =
     seqs [WordB, lit ''not'', many1 (Class is_space),
           Group (Seq (Class ident_start) (Star (Class ident_char))),
           many1 (Class is_space), lit ''is'', many1 (Class is_space), lit ''not'',
           many1 (Class is_space), lit ''null'', WordB]"

definition re_spaces :: re where
  \<comment> \<open>\<open>\s+\<close>\<close>
  "re_spaces = many1 (Class is_space)"

definition normalize_predicate :: "string \<Rightarrow> string" where
  "normalize_predicate predicate =
     (let s = lower predicate;
          s = re_sub re_table_prefix (\<lambda>m gs. []) None s;
          s = re_sub re_not_is_null (\<lambda>m gs. gs ! 0 @ '' is not null'') None s;
          s = re_sub re_not_is_not_null (\<lambda>m gs. gs ! 0 @ '' is null'') None s;
          s = re_sub re_spaces (\<lambda>m gs. '' '') None (strip s)
      in s)"

definition re_and :: re where
  \<comment> \<open>\<open>(?i)\band\b\<close>\<close>
  "re_and = seqs [WordB, liti ''and'', WordB]"

definition strip_wrapping_parens :: "string \<Rightarrow> string" where
  \<comment> \<open>\<open>if s.startswith("(") and s.endswith(")"): s = s[1:-1].strip()\<close>\<close>
  "strip_wrapping_parens s =
     (if startswith s ''('' \<and> endswith s '')'' then strip (butlast (tl s)) else s)"

definition decompose_predicate_to_atoms :: "string \<Rightarrow> string list" where
  "decompose_predicate_to_atoms predicate =
     (if predicate = [] then []
      else filter (\<lambda>s. s \<noteq> [])
             (map (\<lambda>p. strip_wrapping_parens (strip p)) (re_split re_and predicate)))"

fun found_in :: "string \<Rightarrow> string list \<Rightarrow> bool" where
  \<comment> \<open>the inner loop: \<open>for condition in where_conditions: ... found = True; break\<close>\<close>
  "found_in atom_norm [] = False"
| "found_in atom_norm (condition # rest) =
     (if contains atom_norm (normalize_predicate condition) then True
      else found_in atom_norm rest)"

fun all_found :: "string list \<Rightarrow> string list \<Rightarrow> bool" where
  \<comment> \<open>the outer loop: \<open>for atom in atoms: ... if not found: return False\<close>, then \<open>return True\<close>\<close>
  "all_found where_conditions [] = True"
| "all_found where_conditions (atom # rest) =
     (if \<not> found_in (normalize_predicate atom) where_conditions then False
      else all_found where_conditions rest)"

definition check_predicate_presence :: "string list \<Rightarrow> string \<Rightarrow> bool" where
  "check_predicate_presence where_conditions required_predicate =
     (let atoms = decompose_predicate_to_atoms required_predicate
      in if atoms = [] then False else all_found where_conditions atoms)"




section \<open>AST validation (ast\_validator.py)\<close>

datatype validation_error =
    MissingTable string | MissingJoin string | MissingPredicate string
  | DisallowedTable string | DisallowedColumn string
  | SqlParseError | AstValidationFailed
  | BasicSelectStar | BasicChineseContent | BasicPlaceholder | BasicSyntaxError

record ast_validation_result =
  passed :: bool
  errors :: "validation_error list"
  missing_items :: "string list"


definition extract_column_references :: "expr \<Rightarrow> string list" where
  "extract_column_references e =
     remdups (map (\<lambda>col. lower (node_name col))
                  (filter (\<lambda>col. node_name col \<noteq> []) (find_all e exp_Column)))"








definition validate_allowed_columns_ast ::
    "expr \<Rightarrow> (string \<times> string list) list \<Rightarrow> ast_validation_result" where
  "validate_allowed_columns_ast e allowed_columns =
     (let all_allowed_columns =
            set (concat (map (\<lambda>(t, columns).
                   concat (map (\<lambda>col. [lower col, lower t @ ''.'' @ lower col]) columns))
                 allowed_columns));
          table_column_map = dict_of (map (\<lambda>(t, columns). (lower t, map lower columns))
                                          allowed_columns);
          used_columns = extract_column_references e;
          unauthorized_columns =
            filter (\<lambda>used_col. used_col \<notin> all_allowed_columns
                      \<and> \<not> list_ex (\<lambda>table_cols. used_col \<in> set table_cols)
                             (map snd table_column_map))
                   used_columns
      in \<lparr> passed = (unauthorized_columns = []),
           errors = map DisallowedColumn unauthorized_columns,
           missing_items = unauthorized_columns \<rparr>)"


section \<open>The planner (llm\_planner.py)\<close>

datatype task =
  task_list | task_count | task_trend | task_rank | task_detail | task_filter | task_distribution

datatype subject =
    subject_app | subject_node | subject_account | subject_user | subject_endpoint
  | subject_service | subject_process | subject_risk

text \<open>
  \<open>'j\<close> is the type of the values \<open>json.loads\<close> returns.
\<close>

record 'j plan_v1 =
  task :: task
  subject :: subject
  risk :: "string list"
  must_tables :: "string list"
  must_joins :: "string list"
  must_predicates :: "string list"
  should_predicates :: "string list"
  should_projection :: "string list"
  should_tables :: "string list"
  may_projection :: "string list"
  may_predicates :: "string list"
  timeframe_days :: "int option"
  groupby :: "string list"
  aggregates :: "string list"
  alt_perspectives :: "'j list"
  confidence :: rat
  reasoning :: string

definition PlanV1 :: "'j plan_v1" where
  \<comment> \<open>\<open>PlanV1()\<close>: every field at its default\<close>
  "PlanV1 = \<lparr> task = task_list, subject = subject_app, risk = [''weak_password''],
       must_tables = [], must_joins = [], must_predicates = [],
       should_predicates = [], should_projection = [], should_tables = [],
       may_projection = [], may_predicates = [],
       timeframe_days = None, groupby = [], aggregates = [], alt_perspectives = [],
       confidence = 8 / 10, reasoning = [] \<rparr>"

definition re_json_object :: re where
  \<comment> \<open>\<open>\{.*\}\<close> with \<open>re.DOTALL\<close>\<close>
  "re_json_object = seqs [Lit (CHR ''{''), Star (Class (\<lambda>c. True)), Lit (CHR ''}'')]"

definition re_table_ref :: re where
  \<comment> \<open>\<open>\b([a-zA-Z_][a-zA-Z0-9_]*)\.\<close>\<close>
  "re_table_ref =
     seqs [WordB,
           Group (Seq (Class (\<lambda>c. (97 \<le> code c \<and> code c \<le> 122) \<or> (65 \<le> code c \<and> code c \<le> 90)
                                   \<or> c = CHR ''_''))
                      (Star (Class (\<lambda>c. (97 \<le> code c \<and> code c \<le> 122)
                                   \<or> (65 \<le> code c \<and> code c \<le> 90)
                                   \<or> (48 \<le> code c \<and> code c \<le> 57) \<or> c = CHR ''_'')))),
           Lit (CHR ''.'')]"

definition filter_tables :: "string list \<Rightarrow> string list \<Rightarrow> string list" where
  \<comment> \<open>\<open>_filter_tables\<close>\<close>
  "filter_tables allowed_tables items = filter (\<lambda>x. x \<in> set allowed_tables) items"

definition has_unknown_table_ref :: "string list \<Rightarrow> string list \<Rightarrow> bool" where
  \<comment> \<open>\<open>_has_unknown_table_ref\<close>\<close>
  "has_unknown_table_ref allowed_tables texts =
     list_ex (\<lambda>text. list_ex (\<lambda>m. m \<notin> set allowed_tables) (re_findall re_table_ref text)) texts"

definition clean_plan :: "string list \<Rightarrow> 'j plan_v1 \<Rightarrow> 'j plan_v1" where
  \<comment> \<open>the two assignments \<open>plan.must_tables = _filter_tables(plan.must_tables)\<close> and
     \<open>plan.should_tables = _filter_tables(plan.should_tables)\<close>\<close>
  "clean_plan allowed_tables plan =
     plan \<lparr> must_tables := filter_tables allowed_tables (must_tables plan),
            should_tables := filter_tables allowed_tables (should_tables plan) \<rparr>"

definition need_retry :: "string list \<Rightarrow> 'j plan_v1 \<Rightarrow> bool" where
  \<comment> \<open>for the plan as validated, before it is cleaned\<close>
  "need_retry allowed_tables plan =
     (length (filter_tables allowed_tables (must_tables plan)) < length (must_tables plan)
      \<or> has_unknown_table_ref allowed_tables (must_predicates plan)
      \<or> has_unknown_table_ref allowed_tables (must_joins plan))"

text \<open>
  \<open>llm_plan\<close> with its collaborators as arguments. \<open>json_loads\<close> is \<open>json.loads\<close>, \<open>None\<close> when
  it raises \<open>JSONDecodeError\<close>; \<open>validate\<close> is the construction \<open>PlanV1(**plan_data)\<close> by
  pydantic, \<open>None\<close> when it raises; \<open>allowed_tables\<close> is the list computed from
  \<open>schema_clip\<close> or \<open>semantic_tables\<close>. The two calls of \<open>_chat_once\<close>, each with the
  building of its prompt, return a response or raise. \<open>prints m\<close> tells whether the
  \<open>print\<close> call of the message \<open>m\<close> returns; it raises when standard output cannot encode
  the text.

  The body is one \<open>try\<close> with two handlers, which print before they return \<open>PlanV1()\<close>.
  The result is \<open>None\<close> when \<open>llm_plan\<close> raises: a \<open>print\<close> in a handler raised, or the
  handler of \<open>JSONDecodeError\<close> read \<open>raw_response\<close> before the first call had returned.
\<close>

datatype chat_result = Response string | Raises_JSONDecodeError | Raises_other

datatype message =
    Msg_no_json
  | Msg_plan task subject "string list"
  | Msg_required_predicates "string list"
  | Msg_priority_columns "string list"
  | Msg_retried
  | Msg_json_error
  | Msg_response string
  | Msg_failed

definition generic_handler :: "(message \<Rightarrow> bool) \<Rightarrow> 'j plan_v1 option" where
  \<comment> \<open>\<open>except Exception\<close>\<close>
  "generic_handler prints = (if prints Msg_failed then Some PlanV1 else None)"

definition json_handler :: "(message \<Rightarrow> bool) \<Rightarrow> string \<Rightarrow> 'j plan_v1 option" where
  \<comment> \<open>\<open>except json.JSONDecodeError\<close>, with \<open>raw_response\<close> bound\<close>
  "json_handler prints raw_response =
     (if \<not> prints Msg_json_error then None
      else if \<not> prints (Msg_response (take 500 raw_response)) then None
      else Some PlanV1)"

definition report :: "(message \<Rightarrow> bool) \<Rightarrow> bool \<Rightarrow> 'j plan_v1 \<Rightarrow> 'j plan_v1 option" where
  \<comment> \<open>the prints before \<open>return plan\<close>; they are inside the \<open>try\<close>\<close>
  "report prints retried plan =
     (if \<not> prints (Msg_plan (task plan) (subject plan) (risk plan)) then generic_handler prints
      else if must_predicates plan \<noteq> []
              \<and> \<not> prints (Msg_required_predicates (must_predicates plan))
        then generic_handler prints
      else if should_projection plan \<noteq> []
              \<and> \<not> prints (Msg_priority_columns (should_projection plan))
        then generic_handler prints
      else if retried \<and> \<not> prints Msg_retried then generic_handler prints
      else Some plan)"

definition llm_plan :: "(message \<Rightarrow> bool) \<Rightarrow> (string \<Rightarrow> 'j option) \<Rightarrow> ('j \<Rightarrow> 'j plan_v1 option)
    \<Rightarrow> string list \<Rightarrow> chat_result \<Rightarrow> chat_result \<Rightarrow> 'j plan_v1 option" where
  "llm_plan prints json_loads validate allowed_tables first_call retry_call =
     (case first_call of
        Raises_other \<Rightarrow> generic_handler prints
      | Raises_JSONDecodeError \<Rightarrow> None
      | Response raw_response \<Rightarrow>
          (case re_find re_json_object raw_response of
             None \<Rightarrow> if prints Msg_no_json then Some PlanV1 else generic_handler prints
           | Some json_str \<Rightarrow>
               (case json_loads json_str of
                  None \<Rightarrow> json_handler prints raw_response
                | Some plan_data \<Rightarrow>
                    (case validate plan_data of
                       None \<Rightarrow> generic_handler prints
                     | Some plan \<Rightarrow>
                         if need_retry allowed_tables plan
                         then (case retry_call of
                                 Raises_other \<Rightarrow> generic_handler prints
                               | Raises_JSONDecodeError \<Rightarrow> json_handler prints raw_response
                               | Response raw_response_retry \<Rightarrow>
                                   (case re_find re_json_object raw_response_retry of
                                      None \<Rightarrow> report prints True (clean_plan allowed_tables plan)
                                    | Some json_str_retry \<Rightarrow>
                                        (case json_loads json_str_retry of
                                           None \<Rightarrow> json_handler prints raw_response
                                         | Some plan_data_retry \<Rightarrow>
                                             (case validate plan_data_retry of
                                                None \<Rightarrow> generic_handler prints
                                              | Some plan_retry \<Rightarrow>
                                                  report prints True
                                                    (clean_plan allowed_tables plan_retry)))))
                         else report prints False (clean_plan allowed_tables plan)))))"

section \<open>Deterministic selection (validation\_engine.py)\<close>

text \<open>
  A candidate is the dictionary the generator returns. Selection reads two of its keys,
  \<open>sql\<close> and \<open>repaired\<close>; the latter is absent until a repair sets it, and
  \<open>candidate.get("repaired", False)\<close> reads an absent key as \<open>False\<close>.
\<close>

record candidate =
  cand_label :: string
  cand_sql :: string
  cand_repaired :: "bool option"

definition is_repaired :: "candidate \<Rightarrow> bool" where
  "is_repaired c = (case cand_repaired c of None \<Rightarrow> False | Some b \<Rightarrow> b)"

definition selection_key :: "nat \<times> candidate \<Rightarrow> bool \<times> nat \<times> nat" where
  "selection_key item = (case item of (idx, c) \<Rightarrow> (is_repaired c, length (cand_sql c), idx))"

text \<open>
  \<open>candidates.sort(key=selection_key)\<close> sorts the caller's list in place and is stable,
  as \<open>sort_key\<close> is. The model returns the list as the call leaves it together with the
  result.
\<close>

definition deterministic_selection ::
  "(nat \<times> candidate) list \<Rightarrow> (nat \<times> candidate) list \<times> candidate option" where
  "deterministic_selection candidates =
     (if candidates = [] then (candidates, None)
      else (let sorted = sort_key selection_key candidates
            in (sorted, Some (snd (hd sorted)))))"

section \<open>Validation and minimal repair (validation\_engine.py)\<close>










subsection \<open>Injection of predicates\<close>










subsection \<open>Repair and filtering\<close>









section \<open>Properties of the selection\<close>

lemma hd_sort_key_in_set:
  "xs \<noteq> [] \<Longrightarrow> hd (sort_key f xs) \<in> set xs"
proof -
  assume "xs \<noteq> []"
  then have "sort_key f xs \<noteq> []"
    by (metis length_0_conv length_sort)
  then have "hd (sort_key f xs) \<in> set (sort_key f xs)"
    by (rule hd_in_set)
  then show ?thesis by simp
qed

lemma hd_sort_key_least:
  assumes "x \<in> set xs"
  shows "f (hd (sort_key f xs)) \<le> f x"
proof -
  let ?ys = "sort_key f xs"
  have srt: "sorted (map f ?ys)" by (rule sorted_sort_key)
  from assms have mem: "x \<in> set ?ys" by simp
  then obtain y ys where ys: "?ys = y # ys" by (cases ?ys) auto
  show ?thesis
  proof (cases "x = y")
    case True
    then show ?thesis using ys by simp
  next
    case False
    with mem ys have "x \<in> set ys" by auto
    with srt ys show ?thesis by auto
  qed
qed

lemma sort_key_sorted_id:
  "sort_key f (sort_key f xs) = sort_key f xs"
  by (rule sort_key_id_if_sorted) (rule sorted_sort_key)

lemma is_repaired_iff: "is_repaired c \<longleftrightarrow> cand_repaired c = Some True"
  by (cases "cand_repaired c") (simp_all add: is_repaired_def)

lemma selection_key_le_iff:
  "selection_key (i, c) \<le> selection_key (j, d) \<longleftrightarrow>
     (cand_repaired c \<noteq> Some True \<and> cand_repaired d = Some True)
     \<or> ((cand_repaired c = Some True) = (cand_repaired d = Some True)
         \<and> (length (cand_sql c) < length (cand_sql d)
             \<or> (length (cand_sql c) = length (cand_sql d) \<and> i \<le> j)))"
  by (auto simp: selection_key_def is_repaired_iff less_eq_prod_def less_prod_def)

lemma selection_key_inj:
  "selection_key (i, c) \<le> selection_key (j, d) \<Longrightarrow> selection_key (j, d) \<le> selection_key (i, c)
     \<Longrightarrow> i = j"
  by (auto simp: selection_key_le_iff)

text \<open>
  C5. On the empty list the selection returns \<open>None\<close>. On a non-empty list of candidates
  paired with their indices it returns the candidate of an item \<open>(i, c)\<close> of the list that
  comes first in the order that compares the repaired flag (not repaired before
  repaired), then the length of the SQL string (shorter first), then the index (smaller
  first); when the indices of the list are distinct, every item that comes first in this
  order is the one returned. Running the selection again, on the list as the first run
  left it, returns the same candidate.
\<close>

theorem deterministic_selection_minimal:
  "snd (deterministic_selection []) = None
   \<and> (candidates \<noteq> [] \<longrightarrow>
        (\<exists>(i, c) \<in> set candidates.
            snd (deterministic_selection candidates) = Some c
            \<and> (\<forall>(j, d) \<in> set candidates.
                  (cand_repaired c \<noteq> Some True \<and> cand_repaired d = Some True)
                  \<or> ((cand_repaired c = Some True) = (cand_repaired d = Some True)
                      \<and> (length (cand_sql c) < length (cand_sql d)
                          \<or> (length (cand_sql c) = length (cand_sql d) \<and> i \<le> j))))))
   \<and> (distinct (map fst candidates) \<longrightarrow>
        (\<forall>(i, c) \<in> set candidates.
            (\<forall>(j, d) \<in> set candidates.
                  (cand_repaired c \<noteq> Some True \<and> cand_repaired d = Some True)
                  \<or> ((cand_repaired c = Some True) = (cand_repaired d = Some True)
                      \<and> (length (cand_sql c) < length (cand_sql d)
                          \<or> (length (cand_sql c) = length (cand_sql d) \<and> i \<le> j))))
            \<longrightarrow> snd (deterministic_selection candidates) = Some c))
   \<and> snd (deterministic_selection (fst (deterministic_selection candidates)))
        = snd (deterministic_selection candidates)"
proof (intro conjI impI)
  show "snd (deterministic_selection []) = None"
    by (simp add: deterministic_selection_def)
next
  assume ne: "candidates \<noteq> []"
  let ?p = "hd (sort_key selection_key candidates)"
  obtain i c where p: "?p = (i, c)" by (cases ?p)
  have mem: "(i, c) \<in> set candidates"
    using hd_sort_key_in_set[OF ne, of selection_key] p by simp
  have res: "snd (deterministic_selection candidates) = Some c"
    using ne p by (simp add: deterministic_selection_def Let_def)
  have least: "\<forall>q \<in> set candidates. selection_key (i, c) \<le> selection_key q"
    using hd_sort_key_least[of _ candidates selection_key] p by simp
  have "\<forall>(j, d) \<in> set candidates.
          (cand_repaired c \<noteq> Some True \<and> cand_repaired d = Some True)
          \<or> ((cand_repaired c = Some True) = (cand_repaired d = Some True)
              \<and> (length (cand_sql c) < length (cand_sql d)
                  \<or> (length (cand_sql c) = length (cand_sql d) \<and> i \<le> j)))"
    unfolding selection_key_le_iff[symmetric] using least by auto
  with mem res show "\<exists>(i, c) \<in> set candidates.
      snd (deterministic_selection candidates) = Some c
      \<and> (\<forall>(j, d) \<in> set candidates.
            (cand_repaired c \<noteq> Some True \<and> cand_repaired d = Some True)
            \<or> ((cand_repaired c = Some True) = (cand_repaired d = Some True)
                \<and> (length (cand_sql c) < length (cand_sql d)
                    \<or> (length (cand_sql c) = length (cand_sql d) \<and> i \<le> j))))"
    by blast
next
  assume dist: "distinct (map fst candidates)"
  show "\<forall>(i, c) \<in> set candidates.
            (\<forall>(j, d) \<in> set candidates.
                  (cand_repaired c \<noteq> Some True \<and> cand_repaired d = Some True)
                  \<or> ((cand_repaired c = Some True) = (cand_repaired d = Some True)
                      \<and> (length (cand_sql c) < length (cand_sql d)
                          \<or> (length (cand_sql c) = length (cand_sql d) \<and> i \<le> j))))
            \<longrightarrow> snd (deterministic_selection candidates) = Some c"
  proof (clarify)
    fix i c
    assume mem: "(i, c) \<in> set candidates"
      and least: "\<forall>(j, d) \<in> set candidates.
                  (cand_repaired c \<noteq> Some True \<and> cand_repaired d = Some True)
                  \<or> ((cand_repaired c = Some True) = (cand_repaired d = Some True)
                      \<and> (length (cand_sql c) < length (cand_sql d)
                          \<or> (length (cand_sql c) = length (cand_sql d) \<and> i \<le> j)))"
    from mem have ne: "candidates \<noteq> []" by auto
    let ?p = "hd (sort_key selection_key candidates)"
    obtain j d where p: "?p = (j, d)" by (cases ?p)
    have pmem: "(j, d) \<in> set candidates"
      using hd_sort_key_in_set[OF ne, of selection_key] p by simp
    have "selection_key (j, d) \<le> selection_key (i, c)"
      using hd_sort_key_least[OF mem, of selection_key] p by simp
    moreover have "selection_key (i, c) \<le> selection_key (j, d)"
      unfolding selection_key_le_iff using least pmem by blast
    ultimately have "i = j" using selection_key_inj by blast
    with dist mem pmem have "c = d"
      by (metis eq_key_imp_eq_value)
    then show "snd (deterministic_selection candidates) = Some c"
      using ne p by (simp add: deterministic_selection_def Let_def)
  qed
next
  show "snd (deterministic_selection (fst (deterministic_selection candidates)))
        = snd (deterministic_selection candidates)"
  proof (cases "candidates = []")
    case True
    then show ?thesis by (simp add: deterministic_selection_def)
  next
    case False
    then have "sort_key selection_key candidates \<noteq> []"
      by (metis length_0_conv length_sort)
    with False show ?thesis
      by (simp add: deterministic_selection_def Let_def sort_key_sorted_id)
  qed
qed

definition sample_candidates :: "(nat \<times> candidate) list" where
  \<comment> \<open>the shortest SQL is that of a repaired candidate, and two candidates tie on the
     repaired flag and the length\<close>
  "sample_candidates =
     [(3, \<lparr>cand_label = ''D'', cand_sql = ''SELECT b FROM t'', cand_repaired = Some False\<rparr>),
      (0, \<lparr>cand_label = ''A'', cand_sql = ''SELECT 1'', cand_repaired = Some True\<rparr>),
      (1, \<lparr>cand_label = ''B'', cand_sql = ''SELECT a FROM t WHERE a = 1'', cand_repaired = None\<rparr>),
      (2, \<lparr>cand_label = ''C'', cand_sql = ''SELECT a FROM t'', cand_repaired = None\<rparr>)]"

theorem deterministic_selection_minimal_witness:
  "sample_candidates \<noteq> [] \<and> distinct (map fst sample_candidates)
   \<and> (2, \<lparr>cand_label = ''C'', cand_sql = ''SELECT a FROM t'', cand_repaired = None\<rparr>)
        \<in> set sample_candidates
   \<and> snd (deterministic_selection sample_candidates)
       = Some \<lparr>cand_label = ''C'', cand_sql = ''SELECT a FROM t'', cand_repaired = None\<rparr>
   \<and> snd (deterministic_selection []) = None"
proof -
  have d: "distinct (map fst sample_candidates)"
    by (simp add: sample_candidates_def)
  note t = deterministic_selection_minimal[of sample_candidates]
  from t d have "\<forall>(i, c) \<in> set sample_candidates.
            (\<forall>(j, d) \<in> set sample_candidates.
                  (cand_repaired c \<noteq> Some True \<and> cand_repaired d = Some True)
                  \<or> ((cand_repaired c = Some True) = (cand_repaired d = Some True)
                      \<and> (length (cand_sql c) < length (cand_sql d)
                          \<or> (length (cand_sql c) = length (cand_sql d) \<and> i \<le> j))))
            \<longrightarrow> snd (deterministic_selection sample_candidates) = Some c"
    by blast
  then have "snd (deterministic_selection sample_candidates)
       = Some \<lparr>cand_label = ''C'', cand_sql = ''SELECT a FROM t'', cand_repaired = None\<rparr>"
    by (simp add: sample_candidates_def)
  with d t show ?thesis by (simp add: sample_candidates_def)
qed

section \<open>Sample trees and a table-driven library\<close>

text \<open>
  Closed instances below need values for the library's functions. \<open>table_lib\<close> is a library
  given by two finite tables: the trees of the SQL texts it parses and the texts of the
  trees it emits; on anything else the call raises.
\<close>

definition table_lib :: "(string \<times> expr) list \<Rightarrow> (expr \<times> string) list \<Rightarrow> sqlglot" where
  "table_lib parses emits =
     \<lparr> parse_one = (\<lambda>s dialect. map_of parses s),
       sql_text = (\<lambda>e dialect. map_of emits e),
       str_text = map_of emits,
       alias_node = (\<lambda>e. None),
       join_on_text = (\<lambda>j. None),
       and_all = (\<lambda>es. if es = [] then None
                        else Some (Expr exp_And [] (map (Pair ''expressions'') es))) \<rparr>"

definition strict_env :: env where
  "strict_env = \<lparr> SQL_PERMISSIVE_MODE = None, SQL_PERMITTED_ALIASES = None \<rparr>"

definition reserved_order :: "string list" where
  "reserved_order = [''check'', ''desc'', ''key'', ''user'']"

definition ident :: "string \<Rightarrow> expr" where
  "ident n = Expr exp_Identifier n []"

definition column :: "string \<Rightarrow> expr" where
  "column n = Expr exp_Column n [(''this'', ident n)]"

definition qualified_column :: "string \<Rightarrow> string \<Rightarrow> expr" where
  "qualified_column t n = Expr exp_Column n [(''this'', ident n), (''table'', ident t)]"

definition table :: "string \<Rightarrow> expr" where
  "table n = Expr exp_Table n [(''this'', ident n)]"

definition from_table :: "string \<Rightarrow> expr" where
  "from_table n = Expr (exp_Other ''From'') [] [(''this'', table n)]"

definition order_by :: "expr \<Rightarrow> expr" where
  "order_by e = Expr exp_Order [] [(''expressions'', Expr (exp_Other ''Ordered'') [] [(''this'', e)])]"

definition select_a_from_t :: expr where
  \<comment> \<open>\<open>SELECT a FROM t\<close>\<close>
  "select_a_from_t = Expr exp_Select [] [(''expressions'', column ''a''), (''from'', from_table ''t'')]"

definition select_a_from_t_ordered :: expr where
  \<comment> \<open>\<open>SELECT a FROM t ORDER BY a\<close>\<close>
  "select_a_from_t_ordered =
     Expr exp_Select [] [(''expressions'', column ''a''), (''from'', from_table ''t''),
                         (''order'', order_by (column ''a''))]"

definition schema_t :: "schema_table list" where
  "schema_t = [SchemaTable ''t'' [''a'', ''b'']]"

definition lib_order :: sqlglot where
  "lib_order = table_lib
     [(''SELECT a FROM t ORDER BY a'', select_a_from_t_ordered),
      (''SELECT a FROM t'', select_a_from_t)]
     [(select_a_from_t, ''SELECT a FROM t'')]"

section \<open>Properties of the tree rewrite\<close>

primrec subnodes :: "expr \<Rightarrow> expr list" where
  "subnodes (Expr k n as) = Expr k n as # concat (map (\<lambda>p. snd p) (map (map_prod id subnodes) as))"

lemma set_subnodes: "set (subnodes e) = insert e (\<Union>c \<in> set (children e). set (subnodes c))"
  by (cases e) (auto simp: children_def)

lemma set_bfs: "set (bfs q) = (\<Union>e \<in> set q. set (subnodes e))"
proof (induction q rule: bfs.induct)
  case 1
  then show ?case by simp
next
  case (2 e queue)
  have "set (bfs (e # queue)) = insert e (set (bfs (queue @ children e)))" by simp
  also have "\<dots> = insert e ((\<Union>x \<in> set queue. set (subnodes x))
                        \<union> (\<Union>c \<in> set (children e). set (subnodes c)))"
    using 2 by auto
  also have "\<dots> = (\<Union>x \<in> set (e # queue). set (subnodes x))"
    using set_subnodes[of e] by auto
  finally show ?case .
qed

lemma strip_select_arg_clean:
  "n \<in> set (subnodes (strip_select_arg key e)) \<Longrightarrow> klass n = exp_Select \<Longrightarrow> arg n key = None"
proof (induction e arbitrary: n)
  case (Expr k nm as)
  let ?as' = "filter (\<lambda>(a, c). \<not> (k = exp_Select \<and> a = key))
                (map (map_prod id (strip_select_arg key)) as)"
  from Expr.prems(1)
  have "n = Expr k nm ?as' \<or> (\<exists>p \<in> set ?as'. n \<in> set (subnodes (snd p)))"
    by auto
  then show ?case
  proof
    assume n: "n = Expr k nm ?as'"
    with Expr.prems(2) have k: "k = exp_Select" by simp
    have "key \<notin> fst ` set ?as'" using k by auto
    then have "map_of ?as' key = None" by (simp add: map_of_eq_None_iff)
    then show ?thesis using n by (simp add: arg_def)
  next
    assume "\<exists>p \<in> set ?as'. n \<in> set (subnodes (snd p))"
    then obtain a c where ac: "(a, c) \<in> set as"
      and n: "n \<in> set (subnodes (strip_select_arg key c))"
      by auto
    from ac have "c \<in> Basic_BNFs.snds (a, c)" by simp
    from Expr.IH[OF ac this n Expr.prems(2)] show ?thesis .
  qed
qed

lemma find_all_strip_select_arg:
  "n \<in> set (find_all (strip_select_arg key e) exp_Select) \<Longrightarrow> arg n key = None"
proof -
  assume "n \<in> set (find_all (strip_select_arg key e) exp_Select)"
  then have k: "klass n = exp_Select" and "n \<in> set (bfs [strip_select_arg key e])"
    by (simp_all add: find_all_def del: bfs.simps)
  then have "n \<in> set (subnodes (strip_select_arg key e))"
    by (simp only: set_bfs) simp
  then show ?thesis using k by (rule strip_select_arg_clean)
qed

section \<open>What the Guard returns\<close>

definition guard_output :: "sqlglot \<Rightarrow> env \<Rightarrow> string list \<Rightarrow> string \<Rightarrow> int \<Rightarrow> string \<Rightarrow> string" where
  \<comment> \<open>the returned text as a function of the emitted text\<close>
  "guard_output lib e order dialect max_limit base_sql =
     (let norm_sql = normalize_sql_text order base_sql in
      if permissive e then norm_sql
      else (case single_row_rewrite lib order norm_sql dialect of
              Some out \<Rightarrow> out
            | None \<Rightarrow> apply_limit norm_sql max_limit))"

lemma guard_accepts:
  assumes "validate_and_rewrite lib e order sql_in dialect m_schema max_limit keep acb = Inr out"
  shows "\<exists>expression base_sql.
           parse_one lib (remove_comments sql_in) dialect = Some expression
         \<and> sql_text lib (rewritten_tree e keep expression) dialect = Some base_sql
         \<and> out = guard_output lib e order dialect max_limit base_sql"
  using assms
  unfolding validate_and_rewrite_def guard_output_def Let_def
  by (auto split: if_splits option.splits)

text \<open>
  What the rewrite does achieve: when the Guard accepts a query with \<open>keep_order_by\<close> false
  and permissive mode off, the text it returns is computed from the emission of a tree in
  which no Select node, at any depth, has an \<open>order\<close> argument.
\<close>

theorem guard_strips_order_of_selects:
  assumes "validate_and_rewrite lib e order sql_in dialect m_schema max_limit False acb = Inr out"
    and "\<not> permissive e"
  shows "\<exists>expression base_sql.
           parse_one lib (remove_comments sql_in) dialect = Some expression
         \<and> sql_text lib (strip_select_arg ''order'' expression) dialect = Some base_sql
         \<and> out = guard_output lib e order dialect max_limit base_sql
         \<and> (\<forall>n \<in> set (find_all (strip_select_arg ''order'' expression) exp_Select).
               arg n ''order'' = None)"
proof -
  from guard_accepts[OF assms(1)] obtain expression base_sql where
    p: "parse_one lib (remove_comments sql_in) dialect = Some expression"
    and s: "sql_text lib (rewritten_tree e False expression) dialect = Some base_sql"
    and out: "out = guard_output lib e order dialect max_limit base_sql"
    by blast
  from assms(2) have rt: "rewritten_tree e False expression = strip_select_arg ''order'' expression"
    by (simp add: rewritten_tree_def)
  have "\<forall>n \<in> set (find_all (strip_select_arg ''order'' expression) exp_Select).
          arg n ''order'' = None"
    using find_all_strip_select_arg by blast
  with p s out rt show ?thesis by auto
qed

lemma lib_order_run:
  "validate_and_rewrite lib_order strict_env reserved_order ''SELECT a FROM t ORDER BY a''
      ''mysql'' schema_t 200 False [] = Inr ''SELECT a FROM t LIMIT 200''"
  by code_simp

theorem guard_strips_order_of_selects_witness:
  "validate_and_rewrite lib_order strict_env reserved_order ''SELECT a FROM t ORDER BY a''
      ''mysql'' schema_t 200 False [] = Inr ''SELECT a FROM t LIMIT 200''
   \<and> \<not> permissive strict_env
   \<and> (\<exists>expression base_sql.
           parse_one lib_order (remove_comments ''SELECT a FROM t ORDER BY a'') ''mysql'' = Some expression
         \<and> sql_text lib_order (strip_select_arg ''order'' expression) ''mysql'' = Some base_sql
         \<and> ''SELECT a FROM t LIMIT 200'' = guard_output lib_order strict_env reserved_order ''mysql'' 200 base_sql
         \<and> find_all (strip_select_arg ''order'' expression) exp_Select \<noteq> [])"
proof -
  have np: "\<not> permissive strict_env" by (simp add: permissive_def strict_env_def)
  from guard_strips_order_of_selects[OF lib_order_run np]
  obtain expression base_sql where
    p: "parse_one lib_order (remove_comments ''SELECT a FROM t ORDER BY a'') ''mysql'' = Some expression"
    and rest: "sql_text lib_order (strip_select_arg ''order'' expression) ''mysql'' = Some base_sql"
      "''SELECT a FROM t LIMIT 200'' = guard_output lib_order strict_env reserved_order ''mysql'' 200 base_sql"
    by blast
  have "parse_one lib_order (remove_comments ''SELECT a FROM t ORDER BY a'') ''mysql'' = Some select_a_from_t_ordered"
    by code_simp
  with p have "expression = select_a_from_t_ordered" by simp
  moreover have "find_all (strip_select_arg ''order'' select_a_from_t_ordered) exp_Select \<noteq> []"
    by code_simp
  ultimately show ?thesis using lib_order_run np p rest by blast
qed

subsection \<open>ORDER BY after UNION\<close>

definition select_b_from_t :: expr where
  \<comment> \<open>\<open>SELECT b FROM t\<close>\<close>
  "select_b_from_t = Expr exp_Select [] [(''expressions'', column ''b''), (''from'', from_table ''t'')]"

definition union_ordered :: expr where
  \<comment> \<open>\<open>SELECT a FROM t UNION SELECT b FROM t ORDER BY a\<close>: the ORDER BY that follows a UNION
     sorts the whole result and is an argument of the Union node\<close>
  "union_ordered =
     Expr exp_Union []
       [(''this'', select_a_from_t), (''expression'', select_b_from_t),
        (''order'', order_by (column ''a''))]"

definition lib_union :: sqlglot where
  "lib_union = table_lib
     [(''SELECT a FROM t UNION SELECT b FROM t ORDER BY a'', union_ordered)]
     [(union_ordered, ''SELECT a FROM t UNION SELECT b FROM t ORDER BY a'')]"

text \<open>
  C3. The claim has no ORDER BY anywhere in the output when \<open>keep_order_by\<close> is false and
  permissive mode is off, also after UNION. The loop that removes ORDER BY visits the
  Select nodes only, so the ORDER BY of a UNION, an argument of the Union node, is not
  removed: for \<open>SELECT a FROM t UNION SELECT b FROM t ORDER BY a\<close> the tree handed to the
  emitter is the tree parsed, and the Guard returns
  \<open>SELECT a FROM t UNION SELECT b FROM t ORDER BY a LIMIT 200\<close>.
\<close>

theorem guard_keeps_order_by_of_union:
  "\<not> permissive strict_env
   \<and> parse_one lib_union (remove_comments ''SELECT a FROM t UNION SELECT b FROM t ORDER BY a'')
        ''mysql'' = Some union_ordered
   \<and> arg union_ordered ''order'' = Some (order_by (column ''a''))
   \<and> rewritten_tree strict_env False union_ordered = union_ordered
   \<and> validate_and_rewrite lib_union strict_env reserved_order
        ''SELECT a FROM t UNION SELECT b FROM t ORDER BY a'' ''mysql'' schema_t 200 False []
      = Inr ''SELECT a FROM t UNION SELECT b FROM t ORDER BY a LIMIT 200''
   \<and> contains ''ORDER BY'' ''SELECT a FROM t UNION SELECT b FROM t ORDER BY a LIMIT 200''"
  by code_simp

section \<open>LIMIT handling on the emitted text\<close>

definition string_literal :: "string \<Rightarrow> expr" where
  "string_literal s = Expr (exp_Other ''Literal'') s []"

definition select_a_where_b_is :: "string \<Rightarrow> expr" where
  \<comment> \<open>\<open>SELECT a FROM t WHERE b = 's'\<close>\<close>
  "select_a_where_b_is s =
     Expr exp_Select []
       [(''expressions'', column ''a''), (''from'', from_table ''t''),
        (''where'', Expr exp_Where []
                      [(''this'', Expr (exp_Other ''EQ'') []
                                    [(''this'', column ''b''),
                                     (''expression'', string_literal s)])])]"

definition select_a_where_b_is_text :: "string \<Rightarrow> string" where
  "select_a_where_b_is_text s = ''SELECT a FROM t WHERE b = '' @ [quote_char] @ s @ [quote_char]"

definition lib_literal :: "string \<Rightarrow> sqlglot" where
  \<comment> \<open>parses the query that compares \<open>b\<close> with the literal and emits it as it was written\<close>
  "lib_literal s = table_lib
     [(select_a_where_b_is_text s, select_a_where_b_is s)]
     [(select_a_where_b_is s, select_a_where_b_is_text s)]"

text \<open>
  C1. The claim has the output of a query without LIMIT, not a single-row aggregate, end
  with \<open>LIMIT max_limit\<close>, and has the count of an existing LIMIT clamped with the offset
  kept. \<open>_has_limit\<close> and \<open>_clamp_limit\<close> search the emitted text for the word \<open>limit\<close>, so
  they take the content of a string literal for a LIMIT clause. The query
  \<open>SELECT a FROM t WHERE b = 'limit 3000, 10'\<close> has no LIMIT clause; the Guard appends none
  and rewrites the literal to \<open>'LIMIT 2000, 10'\<close>: the first pattern of \<open>_clamp_limit\<close>
  rewrites \<open>limit 3000, 10\<close> to \<open>LIMIT 3000, 10\<close>, and the second pattern,
  \<open>\blimit\s*(\d+)(?!\s*,)\<close>, meant for a LIMIT without offset, backtracks from \<open>3000\<close>,
  which a comma follows, to \<open>300\<close>, which \<open>0\<close> follows, and clamps that prefix to 200.
\<close>

theorem guard_takes_literal_for_limit:
  "find_all (select_a_where_b_is ''limit 3000, 10'') exp_Limit = []
   \<and> \<not> is_single_row_agg (select_a_where_b_is ''limit 3000, 10'')
   \<and> has_limit (select_a_where_b_is_text ''limit 3000, 10'')
   \<and> clamp_limit (select_a_where_b_is_text ''limit 3000, 10'') 200
        = select_a_where_b_is_text ''LIMIT 2000, 10''
   \<and> validate_and_rewrite (lib_literal ''limit 3000, 10'') strict_env reserved_order
        (select_a_where_b_is_text ''limit 3000, 10'') ''mysql'' schema_t 200 False []
      = Inr (select_a_where_b_is_text ''LIMIT 2000, 10'')
   \<and> \<not> endswith (select_a_where_b_is_text ''LIMIT 2000, 10'') '' LIMIT 200''"
  by code_simp

section \<open>Facts about the matcher\<close>

definition ctx :: "char option \<Rightarrow> string \<Rightarrow> char option" where
  \<comment> \<open>the character before a position, after the text \<open>x\<close> has been passed\<close>
  "ctx p x = (if x = [] then p else Some (last x))"

lemma ctx_append: "ctx (ctx p x) y = ctx p (x @ y)"
  by (simp add: ctx_def)

lemma ctx_Nil: "ctx p [] = p"
  by (simp add: ctx_def)

lemma ctx_Cons: "ctx p (c # x) = ctx (Some c) x"
  by (simp add: ctx_def)

definition advances :: "mstate \<Rightarrow> mstate \<Rightarrow> bool" where
  "advances st st' = (\<exists>x. remaining st = x @ remaining st' \<and> prev_char st' = ctx (prev_char st) x)"

lemma advances_refl: "advances st st"
  by (auto simp: advances_def ctx_def)

lemma advances_trans: "advances a b \<Longrightarrow> advances b c \<Longrightarrow> advances a c"
proof -
  assume "advances a b" and "advances b c"
  then obtain x y where x: "remaining a = x @ remaining b" "prev_char b = ctx (prev_char a) x"
    and y: "remaining b = y @ remaining c" "prev_char c = ctx (prev_char b) y"
    by (auto simp: advances_def)
  then have "remaining a = (x @ y) @ remaining c" "prev_char c = ctx (prev_char a) (x @ y)"
    by (simp_all add: ctx_append)
  then show ?thesis unfolding advances_def by blast
qed

lemma step_char_advances: "st' \<in> set (step_char P st) \<Longrightarrow> advances st st'"
proof -
  assume a: "st' \<in> set (step_char P st)"
  then obtain x xs where r: "remaining st = x # xs" and s: "st' = MState (Some x) xs (groups st)"
    by (cases "remaining st") (auto simp: step_char_def split: if_splits)
  have "remaining st = [x] @ remaining st'" "prev_char st' = ctx (prev_char st) [x]"
    using r s by (simp_all add: ctx_def)
  then show ?thesis unfolding advances_def by blast
qed

lemma star_iter_advances:
  assumes "\<And>a b. b \<in> set (m a) \<Longrightarrow> advances a b"
  shows "st' \<in> set (star_iter m n st) \<Longrightarrow> advances st st'"
proof (induction n arbitrary: st)
  case 0
  then show ?case by (simp add: advances_refl)
next
  case (Suc n)
  from Suc.prems have "st' = st \<or> (\<exists>mid \<in> set (m st). st' \<in> set (star_iter m n mid))"
    by (auto split: if_splits)
  then show ?case
  proof
    assume "st' = st"
    then show ?thesis by (simp add: advances_refl)
  next
    assume "\<exists>mid \<in> set (m st). st' \<in> set (star_iter m n mid)"
    then obtain mid where "mid \<in> set (m st)" "st' \<in> set (star_iter m n mid)" by blast
    then show ?thesis using assms Suc.IH advances_trans by blast
  qed
qed

lemma lazy_iter_advances:
  assumes "\<And>a b. b \<in> set (m a) \<Longrightarrow> advances a b"
  shows "st' \<in> set (lazy_iter m n st) \<Longrightarrow> advances st st'"
proof (induction n arbitrary: st)
  case 0
  then show ?case by (simp add: advances_refl)
next
  case (Suc n)
  from Suc.prems have "st' = st \<or> (\<exists>mid \<in> set (m st). st' \<in> set (lazy_iter m n mid))"
    by (auto split: if_splits)
  then show ?case
  proof
    assume "st' = st"
    then show ?thesis by (simp add: advances_refl)
  next
    assume "\<exists>mid \<in> set (m st). st' \<in> set (lazy_iter m n mid)"
    then obtain mid where "mid \<in> set (m st)" "st' \<in> set (lazy_iter m n mid)" by blast
    then show ?thesis using assms Suc.IH advances_trans by blast
  qed
qed

lemma match_advances: "st' \<in> set (match r st) \<Longrightarrow> advances st st'"
proof (induction r arbitrary: st st')
  case (Seq r1 r2)
  from Seq.prems obtain mid where "mid \<in> set (match r1 st)" "st' \<in> set (match r2 mid)"
    by auto
  then show ?case using Seq.IH advances_trans by blast
next
  case (Alt r1 r2)
  then show ?case by auto
next
  case (Star r)
  then show ?case using star_iter_advances[of "match r"] by simp
next
  case (Lazy r)
  then show ?case using lazy_iter_advances[of "match r"] by simp
next
  case (Group r)
  from Group.prems obtain s1 where s1: "s1 \<in> set (match r st)"
    and st': "st' = MState (prev_char s1) (remaining s1) (groups s1 @ [consumed st s1])"
    by auto
  from Group.IH[OF s1] show ?case using st' by (simp add: advances_def)
qed (auto simp: advances_refl step_char_advances split: if_splits option.splits list.splits)

lemma match_at_Some:
  assumes "match_at r p s = Some (m, gs, st')"
  shows "s = m @ remaining st' \<and> m \<noteq> [] \<and> prev_char st' = Some (last m) \<and> gs = groups st'"
proof -
  from assms obtain rest where ms: "match r (MState p s []) = st' # rest"
    and lt: "length (remaining st') < length s"
    and m: "m = consumed (MState p s []) st'" and gs: "gs = groups st'"
    by (auto simp: match_at_def split: list.splits if_splits)
  from ms have "st' \<in> set (match r (MState p s []))" by simp
  then have "advances (MState p s []) st'" by (rule match_advances)
  then obtain x where x: "s = x @ remaining st'" "prev_char st' = ctx p x"
    by (auto simp: advances_def)
  have "m = x" using m x(1) by (simp add: consumed_def)
  moreover have "x \<noteq> []" using lt x(1) by auto
  ultimately show ?thesis using x gs by (simp add: ctx_def)
qed

lemma re_sub_Cons_None:
  "match_at r p (c # cs) = None \<Longrightarrow> re_sub r repl p (c # cs) = c # re_sub r repl (Some c) cs"
  by simp

lemma re_sub_Cons_Some:
  assumes "match_at r p (c # cs) = Some (m, gs, st')"
  shows "re_sub r repl p (c # cs) = repl m gs @ re_sub r repl (Some (last m)) (remaining st')"
proof -
  from assms have lt: "length (remaining st') < length (c # cs)"
    by (auto simp: match_at_def split: list.splits if_splits)
  from match_at_Some[OF assms] have "prev_char st' = Some (last m)" by simp
  with assms lt show ?thesis by simp
qed

lemma search_from_iff:
  "search_from r p s \<longleftrightarrow> (\<exists>u v. s = u @ v \<and> match r (MState (ctx p u) v []) \<noteq> [])"
proof (induction s arbitrary: p)
  case Nil
  then show ?case by (simp add: ctx_def)
next
  case (Cons c cs)
  show ?case
  proof
    assume "search_from r p (c # cs)"
    then have "match r (MState p (c # cs) []) \<noteq> [] \<or> search_from r (Some c) cs" by simp
    then show "\<exists>u v. c # cs = u @ v \<and> match r (MState (ctx p u) v []) \<noteq> []"
    proof
      assume "match r (MState p (c # cs) []) \<noteq> []"
      then have "c # cs = [] @ (c # cs) \<and> match r (MState (ctx p []) (c # cs) []) \<noteq> []"
        by (simp add: ctx_def)
      then show ?thesis by blast
    next
      assume "search_from r (Some c) cs"
      with Cons.IH obtain u v where "cs = u @ v" "match r (MState (ctx (Some c) u) v []) \<noteq> []"
        by blast
      then have "c # cs = (c # u) @ v \<and> match r (MState (ctx p (c # u)) v []) \<noteq> []"
        by (simp add: ctx_Cons)
      then show ?thesis by blast
    qed
  next
    assume "\<exists>u v. c # cs = u @ v \<and> match r (MState (ctx p u) v []) \<noteq> []"
    then obtain u v where uv: "c # cs = u @ v" and m: "match r (MState (ctx p u) v []) \<noteq> []"
      by blast
    show "search_from r p (c # cs)"
    proof (cases u)
      case Nil
      with uv have "v = c # cs" by simp
      with m Nil show ?thesis by (simp add: ctx_def)
    next
      case (Cons a u')
      with uv have "a = c" "cs = u' @ v" by simp_all
      moreover have "match r (MState (ctx (Some c) u') v []) \<noteq> []"
        using m Cons \<open>a = c\<close> by (simp add: ctx_Cons)
      ultimately have "search_from r (Some c) cs" using Cons.IH by blast
      then show ?thesis by simp
    qed
  qed
qed

section \<open>Bare occurrences of a reserved word\<close>

definition blocked :: "char option \<Rightarrow> bool" where
  "blocked p = (case p of None \<Rightarrow> False | Some c \<Rightarrow> quote_or_word c)"

definition next_blocked :: "string \<Rightarrow> bool" where
  "next_blocked s = (case s of [] \<Rightarrow> False | x # _ \<Rightarrow> quote_or_word x)"

definition ci_eq :: "char \<Rightarrow> char \<Rightarrow> bool" where
  "ci_eq k x = (lower_char x = lower_char k)"

fun ci_prefix :: "string \<Rightarrow> string \<Rightarrow> bool" where
  "ci_prefix [] s = True"
| "ci_prefix (k # ks) [] = False"
| "ci_prefix (k # ks) (x # xs) = (ci_eq k x \<and> ci_prefix ks xs)"

definition bare :: "string \<Rightarrow> char option \<Rightarrow> string \<Rightarrow> bool" where
  \<comment> \<open>the word stands at this position with neither a backtick nor a word character on
     either side: the pattern \<open>re_reserved\<close> matches here\<close>
  "bare kw p s = (\<not> blocked p \<and> ci_prefix kw s \<and> \<not> next_blocked (drop (length kw) s))"

definition safe_rep :: "string \<Rightarrow> string \<Rightarrow> bool" where
  \<comment> \<open>a replacement text that can neither start, end nor contain a bare occurrence\<close>
  "safe_rep kw rep =
     (rep \<noteq> [] \<and> quote_or_word (hd rep) \<and> quote_or_word (last rep)
      \<and> \<not> list_ex (\<lambda>x. ci_eq x (hd rep)) kw
      \<and> \<not> (\<exists>u1 u2. rep = u1 @ u2 \<and> u1 \<noteq> [] \<and> u2 \<noteq> []
               \<and> \<not> quote_or_word (last u1) \<and> ci_eq (hd kw) (hd u2)))"

definition safe_sub :: "re \<Rightarrow> (string \<Rightarrow> string list \<Rightarrow> string) \<Rightarrow> string \<Rightarrow> bool" where
  \<comment> \<open>every replacement a substitution can make is safe for the word\<close>
  "safe_sub r repl kw =
     (\<forall>p s m gs st'. match_at r p s = Some (m, gs, st') \<longrightarrow> safe_rep kw (repl m gs))"

lemma safe_subD:
  "safe_sub r repl kw \<Longrightarrow> match_at r p s = Some (m, gs, st') \<Longrightarrow> safe_rep kw (repl m gs)"
  unfolding safe_sub_def by blast

lemma ci_prefix_length: "ci_prefix w s \<Longrightarrow> length w \<le> length s"
  by (induction w s rule: ci_prefix.induct) auto

lemma match_liti:
  "match (liti w) st =
     (if ci_prefix w (remaining st)
      then [MState (ctx (prev_char st) (take (length w) (remaining st)))
                   (drop (length w) (remaining st)) (groups st)]
      else [])"
proof (induction w arbitrary: st)
  case Nil
  then show ?case by (simp add: liti_def seqs_def ctx_def)
next
  case (Cons k ks)
  have unfold: "match (liti (k # ks)) st = concat (map (match (liti ks)) (match (LitI k) st))"
    by (simp add: liti_def seqs_def)
  show ?case
  proof (cases "remaining st")
    case Nil
    then show ?thesis unfolding unfold by (simp add: step_char_def)
  next
    case (Cons x xs)
    show ?thesis
    proof (cases "ci_eq k x")
      case False
      then show ?thesis unfolding unfold using Cons by (simp add: step_char_def ci_eq_def)
    next
      case True
      then have "match (LitI k) st = [MState (Some x) xs (groups st)]"
        using Cons by (simp add: step_char_def ci_eq_def)
      then show ?thesis unfolding unfold using Cons True Cons.IH
        by (simp add: ctx_def)
    qed
  qed
qed

lemma match_reserved:
  "match (re_reserved kw) (MState p s g) =
     (if bare kw p s then [MState (ctx p (take (length kw) s)) (drop (length kw) s) g] else [])"
  by (simp add: re_reserved_def seqs_def match_liti bare_def blocked_def next_blocked_def
      step_char_def split: option.splits list.splits)

lemma bare_Nil: "kw \<noteq> [] \<Longrightarrow> \<not> bare kw p []"
  by (cases kw) (simp_all add: bare_def)

lemma match_at_reserved:
  assumes "kw \<noteq> []"
  shows "match_at (re_reserved kw) p s =
     (if bare kw p s
      then Some (take (length kw) s, [], MState (ctx p (take (length kw) s)) (drop (length kw) s) [])
      else None)"
proof (cases "bare kw p s")
  case False
  then show ?thesis by (simp add: match_at_def match_reserved)
next
  case True
  then have "length kw \<le> length s" by (simp add: bare_def ci_prefix_length)
  with assms have "length (drop (length kw) s) < length s" by (cases kw) auto
  with True \<open>length kw \<le> length s\<close> show ?thesis
    by (simp add: match_at_def match_reserved consumed_def)
qed

lemma search_reserved_iff:
  "search_from (re_reserved kw) p s \<longleftrightarrow> (\<exists>u v. s = u @ v \<and> bare kw (ctx p u) v)"
  unfolding search_from_iff match_reserved by auto

lemma search_append:
  assumes "search_from r0 p (u @ v)"
  shows "(\<exists>u1 u2. u = u1 @ u2 \<and> u2 \<noteq> [] \<and> match r0 (MState (ctx p u1) (u2 @ v) []) \<noteq> [])
         \<or> search_from r0 (ctx p u) v"
proof -
  from assms obtain a b where ab: "u @ v = a @ b" and m: "match r0 (MState (ctx p a) b []) \<noteq> []"
    unfolding search_from_iff by blast
  from ab consider w where "a = u @ w" "v = w @ b" | w where "u = a @ w" "b = w @ v" "w \<noteq> []"
    by (metis append_eq_append_conv2 append_Nil2)
  then show ?thesis
  proof cases
    case 1
    then have "match r0 (MState (ctx (ctx p u) w) b []) \<noteq> []" using m by (simp add: ctx_append)
    with 1 have "search_from r0 (ctx p u) v" unfolding search_from_iff by blast
    then show ?thesis ..
  next
    case 2
    with m show ?thesis by blast
  qed
qed

lemma prefix_copy:
  assumes safe: "safe_sub r repl kw"
  shows "set w \<subseteq> set kw \<Longrightarrow> ci_prefix w (re_sub r repl p s)
         \<Longrightarrow> ci_prefix w s
             \<and> drop (length w) (re_sub r repl p s)
                 = re_sub r repl (ctx p (take (length w) s)) (drop (length w) s)"
proof (induction w arbitrary: p s)
  case Nil
  then show ?case by (simp add: ctx_def)
next
  case (Cons k ks)
  show ?case
  proof (cases s)
    case Nil
    with Cons.prems show ?thesis by simp
  next
    case (Cons c cs)
    show ?thesis
    proof (cases "match_at r p (c # cs)")
      case (Some a)
      then obtain m gs st' where a: "match_at r p (c # cs) = Some (m, gs, st')"
        by (cases a) auto
      from safe_subD[OF safe a] have ne: "repl m gs \<noteq> []" and f: "\<not> list_ex (\<lambda>x. ci_eq x (hd (repl m gs))) kw"
        by (simp_all add: safe_rep_def)
      from ne obtain y ys where rep: "repl m gs = y # ys" by (cases "repl m gs") auto
      have "re_sub r repl p s = y # ys @ re_sub r repl (Some (last m)) (remaining st')"
        using re_sub_Cons_Some[OF a] rep Cons by simp
      with Cons.prems(2) have "ci_eq k y" by simp
      moreover have "k \<in> set kw" using Cons.prems(1) by simp
      ultimately have "list_ex (\<lambda>x. ci_eq x (hd (repl m gs))) kw"
        using rep by (auto simp: list_ex_iff)
      with f show ?thesis by simp
    next
      case None
      then have out: "re_sub r repl p s = c # re_sub r repl (Some c) cs"
        using Cons by simp
      with Cons.prems(2) have k: "ci_eq k c" and rest: "ci_prefix ks (re_sub r repl (Some c) cs)"
        by simp_all
      from Cons.prems(1) have "set ks \<subseteq> set kw" by simp
      from Cons.IH[OF this rest]
      have "ci_prefix ks cs"
        and "drop (length ks) (re_sub r repl (Some c) cs)
               = re_sub r repl (ctx (Some c) (take (length ks) cs)) (drop (length ks) cs)"
        by simp_all
      then show ?thesis using k out Cons by (simp add: ctx_Cons)
    qed
  qed
qed

lemma next_char_copy:
  assumes safe: "safe_sub r repl kw"
    and nb: "\<not> next_blocked (re_sub r repl p s)"
  shows "\<not> next_blocked s"
proof (cases s)
  case Nil
  then show ?thesis by (simp add: next_blocked_def)
next
  case (Cons c cs)
  show ?thesis
  proof (cases "match_at r p (c # cs)")
    case None
    then show ?thesis using nb Cons by (simp add: next_blocked_def)
  next
    case (Some a)
    then obtain m gs st' where a: "match_at r p (c # cs) = Some (m, gs, st')"
      by (cases a) auto
    from safe_subD[OF safe a] obtain y ys where rep: "repl m gs = y # ys" and "quote_or_word y"
      by (cases "repl m gs") (auto simp: safe_rep_def)
    then have "next_blocked (re_sub r repl p s)"
      using re_sub_Cons_Some[OF a] Cons by (simp add: next_blocked_def)
    with nb show ?thesis by simp
  qed
qed

lemma bare_after_sub:
  assumes safe: "safe_sub r repl kw"
    and ok: "blocked p \<longrightarrow> blocked p_out"
    and b: "bare kw p_out (re_sub r repl p s)"
  shows "bare kw p s"
proof -
  from b have nbp: "\<not> blocked p_out" and pre: "ci_prefix kw (re_sub r repl p s)"
    and nx: "\<not> next_blocked (drop (length kw) (re_sub r repl p s))"
    by (simp_all add: bare_def)
  from prefix_copy[OF safe subset_refl pre] have pre': "ci_prefix kw s"
    and d: "drop (length kw) (re_sub r repl p s)
            = re_sub r repl (ctx p (take (length kw) s)) (drop (length kw) s)"
    by simp_all
  from nx d have "\<not> next_blocked (drop (length kw) s)"
    using next_char_copy[OF safe] by metis
  with pre' nbp ok show ?thesis by (auto simp: bare_def)
qed

lemma search_after_sub:
  assumes safe: "safe_sub r repl kw"
    and kw: "kw \<noteq> []"
  shows "blocked p \<longrightarrow> blocked p_out
         \<Longrightarrow> search_from (re_reserved kw) p_out (re_sub r repl p s)
         \<Longrightarrow> \<exists>u v. s = u @ v \<and> bare kw (ctx p u) v \<and> match_at r (ctx p u) v = None"
proof (induction "length s" arbitrary: s p p_out rule: less_induct)
  case less
  show ?case
  proof (cases s)
    case Nil
    with less.prems(2) have "bare kw p_out []" by (simp add: match_reserved split: if_splits)
    with kw show ?thesis by (simp add: bare_Nil)
  next
    case (Cons c cs)
    show ?thesis
    proof (cases "match_at r p (c # cs)")
      case None
      then have out: "re_sub r repl p s = c # re_sub r repl (Some c) cs" using Cons by simp
      from less.prems(2) out
      have "bare kw p_out (re_sub r repl p s) \<or> search_from (re_reserved kw) (Some c) (re_sub r repl (Some c) cs)"
        by (auto simp: match_reserved split: if_splits)
      then show ?thesis
      proof
        assume "bare kw p_out (re_sub r repl p s)"
        then have "bare kw p s" using bare_after_sub[OF safe less.prems(1)] by blast
        then have "s = [] @ s \<and> bare kw (ctx p []) s \<and> match_at r (ctx p []) s = None"
          using None Cons by (simp add: ctx_def)
        then show ?thesis by blast
      next
        assume "search_from (re_reserved kw) (Some c) (re_sub r repl (Some c) cs)"
        moreover have "length cs < length s" using Cons by simp
        ultimately obtain u v where "cs = u @ v" "bare kw (ctx (Some c) u) v"
          "match_at r (ctx (Some c) u) v = None"
          using less.hyps[of cs "Some c" "Some c"] by blast
        then have "s = (c # u) @ v \<and> bare kw (ctx p (c # u)) v \<and> match_at r (ctx p (c # u)) v = None"
          using Cons by (simp add: ctx_Cons)
        then show ?thesis by blast
      qed
    next
      case (Some a)
      then obtain m gs st' where a: "match_at r p (c # cs) = Some (m, gs, st')"
        by (cases a) auto
      let ?rep = "repl m gs"
      let ?out' = "re_sub r repl (Some (last m)) (remaining st')"
      from match_at_Some[OF a] have s: "c # cs = m @ remaining st'" and mne: "m \<noteq> []"
        by simp_all
      from safe_subD[OF safe a] have sr: "safe_rep kw ?rep" .
      then have rne: "?rep \<noteq> []" and lastB: "quote_or_word (last ?rep)"
        by (simp_all add: safe_rep_def)
      have out: "re_sub r repl p s = ?rep @ ?out'"
        using re_sub_Cons_Some[OF a] Cons by simp
      from less.prems(2) out
      have "(\<exists>u1 u2. ?rep = u1 @ u2 \<and> u2 \<noteq> []
                \<and> match (re_reserved kw) (MState (ctx p_out u1) (u2 @ ?out') []) \<noteq> [])
            \<or> search_from (re_reserved kw) (ctx p_out ?rep) ?out'"
        using search_append[of "re_reserved kw" p_out ?rep ?out'] by simp
      then show ?thesis
      proof
        assume "\<exists>u1 u2. ?rep = u1 @ u2 \<and> u2 \<noteq> []
                \<and> match (re_reserved kw) (MState (ctx p_out u1) (u2 @ ?out') []) \<noteq> []"
        then obtain u1 u2 where rep: "?rep = u1 @ u2" and u2: "u2 \<noteq> []"
          and bm: "bare kw (ctx p_out u1) (u2 @ ?out')"
          by (auto simp: match_reserved split: if_splits)
        from kw obtain k ks where kks: "kw = k # ks" by (cases kw) auto
        from u2 obtain y ys where yys: "u2 = y # ys" by (cases u2) auto
        from bm kks yys have hd: "ci_eq k y" and nb: "\<not> blocked (ctx p_out u1)"
          by (simp_all add: bare_def)
        show ?thesis
        proof (cases "u1 = []")
          case True
          then have "hd ?rep = y" using rep yys by simp
          with hd kks have "list_ex (\<lambda>x. ci_eq x (hd ?rep)) kw" by simp
          with sr show ?thesis by (simp add: safe_rep_def)
        next
          case False
          then have "\<not> quote_or_word (last u1)" using nb by (simp add: ctx_def blocked_def)
          with rep False u2 hd kks yys
          have "\<exists>u1 u2. ?rep = u1 @ u2 \<and> u1 \<noteq> [] \<and> u2 \<noteq> []
                  \<and> \<not> quote_or_word (last u1) \<and> ci_eq (hd kw) (hd u2)"
            by (metis list.sel(1))
          with sr show ?thesis by (simp add: safe_rep_def)
        qed
      next
        assume sf: "search_from (re_reserved kw) (ctx p_out ?rep) ?out'"
        have c1: "ctx p_out ?rep = Some (last ?rep)" using rne by (simp add: ctx_def)
        have lt: "length (remaining st') < length s" using s mne Cons
          by (metis append_eq_conv_conj length_drop diff_less length_greater_0_conv list.simps(3))
        have okb: "blocked (Some (last m)) \<longrightarrow> blocked (Some (last ?rep))"
          using lastB by (simp add: blocked_def)
        from less.hyps[OF lt okb] sf c1
        obtain u v where uv: "remaining st' = u @ v" "bare kw (ctx (Some (last m)) u) v"
          "match_at r (ctx (Some (last m)) u) v = None"
          by auto
        have "ctx p (m @ u) = ctx (Some (last m)) u" using mne by (simp add: ctx_def)
        with uv s Cons have "s = (m @ u) @ v \<and> bare kw (ctx p (m @ u)) v
              \<and> match_at r (ctx p (m @ u)) v = None"
          by simp
        then show ?thesis by blast
      qed
    qed
  qed
qed

section \<open>Characters and case\<close>

lemma code_char_of: "0 \<le> k \<Longrightarrow> k < 256 \<Longrightarrow> code (char_of k) = k"
  by (simp add: code_def)

lemma is_wordI:
  "(65 \<le> code x \<and> code x \<le> 90) \<or> (97 \<le> code x \<and> code x \<le> 122)
   \<or> (192 \<le> code x \<and> code x \<le> 214) \<or> (216 \<le> code x \<and> code x \<le> 246)
   \<or> (248 \<le> code x \<and> code x \<le> 255) \<Longrightarrow> is_word x"
  unfolding is_word_def Let_def by blast

lemma upper_is_word:
  assumes "(65 \<le> code x \<and> code x \<le> 90) \<or> (192 \<le> code x \<and> code x \<le> 214) \<or> (216 \<le> code x \<and> code x \<le> 222)"
  shows "is_word x"
proof (rule is_wordI)
  from assms consider "65 \<le> code x \<and> code x \<le> 90" | "192 \<le> code x \<and> code x \<le> 214"
    | "216 \<le> code x \<and> code x \<le> 222" by blast
  then show "(65 \<le> code x \<and> code x \<le> 90) \<or> (97 \<le> code x \<and> code x \<le> 122)
   \<or> (192 \<le> code x \<and> code x \<le> 214) \<or> (216 \<le> code x \<and> code x \<le> 246)
   \<or> (248 \<le> code x \<and> code x \<le> 255)"
    by cases simp_all
qed

lemma upper_lower_is_word:
  assumes "(65 \<le> code x \<and> code x \<le> 90) \<or> (192 \<le> code x \<and> code x \<le> 214) \<or> (216 \<le> code x \<and> code x \<le> 222)"
  shows "is_word (char_of (code x + 32))"
proof (rule is_wordI)
  have c: "code (char_of (code x + 32)) = code x + 32" using assms by (intro code_char_of) auto
  from assms consider "65 \<le> code x \<and> code x \<le> 90" | "192 \<le> code x \<and> code x \<le> 214"
    | "216 \<le> code x \<and> code x \<le> 222" by blast
  then show "(65 \<le> code (char_of (code x + 32)) \<and> code (char_of (code x + 32)) \<le> 90)
   \<or> (97 \<le> code (char_of (code x + 32)) \<and> code (char_of (code x + 32)) \<le> 122)
   \<or> (192 \<le> code (char_of (code x + 32)) \<and> code (char_of (code x + 32)) \<le> 214)
   \<or> (216 \<le> code (char_of (code x + 32)) \<and> code (char_of (code x + 32)) \<le> 246)
   \<or> (248 \<le> code (char_of (code x + 32)) \<and> code (char_of (code x + 32)) \<le> 255)"
    unfolding c by cases simp_all
qed

lemma is_word_lower_char: "is_word (lower_char x) = is_word x"
proof (cases "(65 \<le> code x \<and> code x \<le> 90) \<or> (192 \<le> code x \<and> code x \<le> 214) \<or> (216 \<le> code x \<and> code x \<le> 222)")
  case False
  then have "lower_char x = x" unfolding lower_char_def Let_def by (rule if_not_P)
  then show ?thesis by simp
next
  case True
  then have l: "lower_char x = char_of (code x + 32)" unfolding lower_char_def Let_def by (rule if_P)
  show ?thesis unfolding l using upper_is_word[OF True] upper_lower_is_word[OF True] by simp
qed

lemma ci_eq_word: "ci_eq k y \<Longrightarrow> is_word k \<Longrightarrow> is_word y"
proof -
  assume "ci_eq k y" and "is_word k"
  then have "is_word (lower_char y)" by (simp add: ci_eq_def is_word_lower_char)
  then show ?thesis by (simp add: is_word_lower_char)
qed

lemma backtick_not_word: "\<not> is_word backtick"
  by code_simp

lemma word_not_ci_backtick: "is_word x \<Longrightarrow> \<not> ci_eq x backtick"
  using backtick_not_word ci_eq_word by blast

lemma lower_char_digit: "is_digit y \<Longrightarrow> lower_char y = y"
proof -
  assume "is_digit y"
  then have "\<not> ((65 \<le> code y \<and> code y \<le> 90) \<or> (192 \<le> code y \<and> code y \<le> 214) \<or> (216 \<le> code y \<and> code y \<le> 222))"
    unfolding is_digit_def Let_def by linarith
  then show ?thesis unfolding lower_char_def Let_def by (rule if_not_P)
qed

lemma ci_prefix_take_word:
  "ci_prefix kw s \<Longrightarrow> list_all is_word kw \<Longrightarrow> list_all is_word (take (length kw) s)"
  by (induction kw s rule: ci_prefix.induct) (auto intro: ci_eq_word)

section \<open>Replacements that are safe\<close>

lemma safe_rep_all_blocked:
  assumes "rep \<noteq> []" and "list_all quote_or_word rep"
    and "\<not> list_ex (\<lambda>x. ci_eq x (hd rep)) kw"
  shows "safe_rep kw rep"
proof -
  have "quote_or_word (hd rep)" "quote_or_word (last rep)"
    using assms(1,2) by (simp_all add: list_all_iff)
  moreover have "\<not> (\<exists>u1 u2. rep = u1 @ u2 \<and> u1 \<noteq> [] \<and> u2 \<noteq> []
               \<and> \<not> quote_or_word (last u1) \<and> ci_eq (hd kw) (hd u2))"
  proof
    assume "\<exists>u1 u2. rep = u1 @ u2 \<and> u1 \<noteq> [] \<and> u2 \<noteq> []
               \<and> \<not> quote_or_word (last u1) \<and> ci_eq (hd kw) (hd u2)"
    then obtain u1 u2 where "rep = u1 @ u2" "u1 \<noteq> []" "\<not> quote_or_word (last u1)" by blast
    moreover from this have "last u1 \<in> set rep" by simp
    ultimately show False using assms(2) by (simp add: list_all_iff)
  qed
  ultimately show ?thesis using assms(1,3) by (simp add: safe_rep_def)
qed

lemma safe_rep_foreign_tail:
  assumes "rep \<noteq> []" and "quote_or_word (hd rep)" and "quote_or_word (last rep)"
    and "\<not> list_ex (\<lambda>x. ci_eq x (hd rep)) kw"
    and "\<not> list_ex (ci_eq (hd kw)) (tl rep)"
  shows "safe_rep kw rep"
proof -
  have "\<not> (\<exists>u1 u2. rep = u1 @ u2 \<and> u1 \<noteq> [] \<and> u2 \<noteq> []
               \<and> \<not> quote_or_word (last u1) \<and> ci_eq (hd kw) (hd u2))"
  proof
    assume "\<exists>u1 u2. rep = u1 @ u2 \<and> u1 \<noteq> [] \<and> u2 \<noteq> []
               \<and> \<not> quote_or_word (last u1) \<and> ci_eq (hd kw) (hd u2)"
    then obtain u1 u2 where u: "rep = u1 @ u2" "u1 \<noteq> []" "u2 \<noteq> []" "ci_eq (hd kw) (hd u2)"
      by blast
    then have "hd u2 \<in> set (tl rep)" by (cases u1) auto
    with u(4) assms(5) show False by (auto simp: list_ex_iff)
  qed
  with assms(1-4) show ?thesis by (simp add: safe_rep_def)
qed

lemma safe_sub_quote:
  assumes "list_all is_word kw" and "list_all is_word kw'" and "kw' \<noteq> []"
  shows "safe_sub (re_reserved kw') (\<lambda>m gs. backtick # m @ [backtick]) kw"
  unfolding safe_sub_def
proof (intro allI impI)
  fix p s m gs st'
  assume "match_at (re_reserved kw') p s = Some (m, gs, st')"
  then have b: "bare kw' p s" and m: "m = take (length kw') s"
    by (simp_all add: match_at_reserved[OF assms(3)] split: if_splits)
  then have "list_all is_word m" using ci_prefix_take_word assms(2) by (simp add: bare_def)
  then have "list_all quote_or_word (backtick # m @ [backtick])"
    by (auto simp: list_all_iff quote_or_word_def)
  moreover have "\<not> list_ex (\<lambda>x. ci_eq x backtick) kw"
    using assms(1) word_not_ci_backtick by (auto simp: list_all_iff list_ex_iff)
  ultimately show "safe_rep kw (backtick # m @ [backtick])"
    by (intro safe_rep_all_blocked) simp_all
qed

lemma safe_sub_const:
  assumes "safe_rep kw rep"
  shows "safe_sub r (\<lambda>m gs. rep) kw"
  using assms by (simp add: safe_sub_def)

section \<open>Substitutions keep a text free of bare occurrences\<close>

definition no_bare :: "string \<Rightarrow> string \<Rightarrow> bool" where
  \<comment> \<open>\<open>re.search\<close> for the pattern of \<open>_quote_reserved_identifiers\<close> finds nothing\<close>
  "no_bare kw s = (\<not> re_search (re_reserved kw) s)"

lemma no_bare_sub:
  assumes "safe_sub r repl kw" and "kw \<noteq> []" and "no_bare kw s"
  shows "no_bare kw (re_sub r repl None s)"
proof (rule ccontr)
  assume "\<not> no_bare kw (re_sub r repl None s)"
  then have "search_from (re_reserved kw) None (re_sub r repl None s)"
    by (simp add: no_bare_def re_search_def)
  from search_after_sub[OF assms(1,2) _ this]
  obtain u v where "s = u @ v" "bare kw (ctx None u) v" by blast
  then have "search_from (re_reserved kw) None s" unfolding search_reserved_iff by blast
  with assms(3) show False by (simp add: no_bare_def re_search_def)
qed

lemma no_bare_quote_one:
  assumes "list_all is_word kw" and "kw \<noteq> []"
  shows "no_bare kw (quote_one kw s)"
proof (rule ccontr)
  assume "\<not> no_bare kw (quote_one kw s)"
  then have "search_from (re_reserved kw) None
               (re_sub (re_reserved kw) (\<lambda>m gs. backtick # m @ [backtick]) None s)"
    by (simp add: no_bare_def re_search_def quote_one_def)
  from search_after_sub[OF safe_sub_quote[OF assms(1) assms(1) assms(2)] assms(2) _ this]
  obtain u v where "bare kw (ctx None u) v" "match_at (re_reserved kw) (ctx None u) v = None"
    by blast
  then show False by (simp add: match_at_reserved[OF assms(2)])
qed

lemma no_bare_quote_other:
  assumes "list_all is_word kw" and "kw \<noteq> []" and "list_all is_word kw'" and "kw' \<noteq> []"
    and "no_bare kw s"
  shows "no_bare kw (quote_one kw' s)"
  unfolding quote_one_def
  using no_bare_sub[OF safe_sub_quote[OF assms(1) assms(3) assms(4)] assms(2) assms(5)] .

definition word_list :: "string list \<Rightarrow> bool" where
  "word_list ws = list_all (\<lambda>w. w \<noteq> [] \<and> list_all is_word w) ws"

lemma no_bare_quote_rest:
  assumes "list_all is_word kw" and "kw \<noteq> []"
  shows "word_list order \<Longrightarrow> no_bare kw s \<Longrightarrow> no_bare kw (quote_reserved_identifiers order s)"
proof (induction order arbitrary: s)
  case Nil
  then show ?case by (simp add: quote_reserved_identifiers_def)
next
  case (Cons k ks)
  from Cons.prems have k: "list_all is_word k" "k \<noteq> []" and ks: "word_list ks"
    by (simp_all add: word_list_def)
  have "no_bare kw (quote_one k s)"
    using no_bare_quote_other[OF assms k Cons.prems(2)] .
  from Cons.IH[OF ks this] show ?case by (simp add: quote_reserved_identifiers_def)
qed

lemma no_bare_quote_reserved:
  assumes "list_all is_word kw" and "kw \<noteq> []"
  shows "word_list order \<Longrightarrow> kw \<in> set order \<Longrightarrow> no_bare kw (quote_reserved_identifiers order s)"
proof (induction order arbitrary: s)
  case Nil
  then show ?case by simp
next
  case (Cons k ks)
  from Cons.prems have k: "list_all is_word k" "k \<noteq> []" and ks: "word_list ks"
    by (simp_all add: word_list_def)
  have step: "quote_reserved_identifiers (k # ks) s = quote_reserved_identifiers ks (quote_one k s)"
    by (simp add: quote_reserved_identifiers_def)
  show ?case
  proof (cases "k = kw")
    case True
    have "no_bare kw (quote_one k s)" using True no_bare_quote_one[OF assms] by simp
    then show ?thesis unfolding step using no_bare_quote_rest[OF assms ks] by blast
  next
    case False
    with Cons.prems have "kw \<in> set ks" by simp
    from Cons.IH[OF ks this] show ?thesis unfolding step .
  qed
qed

section \<open>The words the Guard leaves quoted\<close>

definition kept_quoted :: "string \<Rightarrow> bool" where
  \<comment> \<open>the reserved-like words other than \<open>desc\<close>\<close>
  "kept_quoted kw = (kw = ''check'' \<or> kw = ''key'' \<or> kw = ''user'')"

lemma kept_quoted_word: "kept_quoted kw \<Longrightarrow> list_all is_word kw \<and> kw \<noteq> []"
  unfolding kept_quoted_def by (elim disjE; hypsubst; code_simp)

lemma kept_quoted_foreign_heads:
  "kept_quoted kw \<Longrightarrow>
     \<not> list_ex (\<lambda>x. ci_eq x (CHR ''A'')) kw \<and> \<not> list_ex (\<lambda>x. ci_eq x (CHR ''D'')) kw
     \<and> \<not> list_ex (\<lambda>x. ci_eq x (CHR ''L'')) kw"
  unfolding kept_quoted_def by (elim disjE; hypsubst; code_simp)

lemma kept_quoted_first:
  "kept_quoted kw \<Longrightarrow>
     \<not> list_ex (ci_eq (hd kw)) '' LIMIT,-'' \<and> \<not> is_digit (lower_char (hd kw))"
  unfolding kept_quoted_def by (elim disjE; hypsubst; code_simp)

lemma reserved_like_words: "set order \<subseteq> RESERVED_LIKE \<Longrightarrow> word_list order"
proof -
  have "\<forall>w \<in> RESERVED_LIKE. w \<noteq> [] \<and> list_all is_word w"
    unfolding RESERVED_LIKE_def by code_simp
  then show "set order \<subseteq> RESERVED_LIKE \<Longrightarrow> word_list order"
    by (auto simp: word_list_def list_all_iff)
qed

lemma not_ci_eq_digit:
  assumes "\<not> is_digit (lower_char k)" and "is_digit y"
  shows "\<not> ci_eq k y"
  using assms lower_char_digit[OF assms(2)] by (auto simp: ci_eq_def)

lemma is_digit_word: "is_digit c \<Longrightarrow> is_word c"
  unfolding is_digit_def is_word_def Let_def by blast

lemma decimal_digits: "0 \<le> n \<Longrightarrow> decimal n \<noteq> [] \<and> list_all is_digit (decimal n)"
proof (induction n rule: decimal.induct)
  case (1 n)
  have dig: "\<And>d. 0 \<le> d \<Longrightarrow> d < 10 \<Longrightarrow> is_digit (digit_char d)"
  proof -
    fix d :: int assume "0 \<le> d" "d < 10"
    then have "code (char_of (48 + d)) = 48 + d" by (simp add: code_def)
    then show "is_digit (digit_char d)" using \<open>0 \<le> d\<close> \<open>d < 10\<close>
      by (simp add: is_digit_def digit_char_def Let_def)
  qed
  show ?case
  proof (cases "n < 10")
    case True
    then show ?thesis using 1 dig by (subst decimal.simps, subst (2) decimal.simps) simp
  next
    case False
    then have "0 \<le> n div 10" using 1(2) by simp
    from 1(1)[OF False this]
    have ih: "decimal (n div 10) \<noteq> []" "list_all is_digit (decimal (n div 10))"
      by simp_all
    have "is_digit (digit_char (n mod 10))" by (rule dig) simp_all
    with ih False show ?thesis by (subst decimal.simps, subst (2) decimal.simps) simp
  qed
qed

lemma str_of_int_chars:
  "str_of_int i \<noteq> [] \<and> is_digit (last (str_of_int i))
   \<and> list_all (\<lambda>c. is_digit c \<or> c = CHR ''-'') (str_of_int i)"
proof (cases "i < 0")
  case True
  then have "0 \<le> - i" by simp
  from decimal_digits[OF this] have d: "decimal (- i) \<noteq> []" "list_all is_digit (decimal (- i))"
    by simp_all
  then have "is_digit (last (decimal (- i)))" by (simp add: list_all_iff)
  with d True show ?thesis by (auto simp: str_of_int_def list_all_iff)
next
  case False
  then have "0 \<le> i" by simp
  from decimal_digits[OF this] have d: "decimal i \<noteq> []" "list_all is_digit (decimal i)"
    by simp_all
  then have "is_digit (last (decimal i))" by (simp add: list_all_iff)
  with d False show ?thesis by (auto simp: str_of_int_def list_all_iff)
qed

lemma foreign_number:
  assumes "kept_quoted kw"
  shows "\<not> list_ex (ci_eq (hd kw)) (str_of_int i)"
proof -
  from kept_quoted_first[OF assms] have m: "\<not> ci_eq (hd kw) (CHR ''-'')"
    and d: "\<not> is_digit (lower_char (hd kw))"
    by simp_all
  have "\<forall>c \<in> set (str_of_int i). is_digit c \<or> c = CHR ''-''"
    using str_of_int_chars[of i] by (simp add: list_all_iff)
  then show ?thesis using m not_ci_eq_digit[OF d] by (auto simp: list_ex_iff)
qed

lemma safe_rep_limit:
  assumes "kept_quoted kw"
  shows "safe_rep kw (''LIMIT '' @ str_of_int a)"
    and "safe_rep kw (''LIMIT '' @ str_of_int a @ '', '' @ str_of_int b)"
proof -
  from kept_quoted_foreign_heads[OF assms] have h: "\<not> list_ex (\<lambda>x. ci_eq x (CHR ''L'')) kw"
    by simp
  from kept_quoted_first[OF assms] have f: "\<not> list_ex (ci_eq (hd kw)) '' LIMIT,-''" by simp
  have la: "quote_or_word (last (str_of_int a))" and lb: "quote_or_word (last (str_of_int b))"
    using str_of_int_chars is_digit_word by (simp_all add: quote_or_word_def)
  have na: "str_of_int a \<noteq> []" and nb: "str_of_int b \<noteq> []"
    using str_of_int_chars by simp_all
  have L: "quote_or_word (CHR ''L'')" by code_simp
  show "safe_rep kw (''LIMIT '' @ str_of_int a)"
  proof (rule safe_rep_foreign_tail)
    show "\<not> list_ex (ci_eq (hd kw)) (tl (''LIMIT '' @ str_of_int a))"
      using f foreign_number[OF assms, of a] by (simp add: list_ex_iff)
  qed (use h la na L in simp_all)
  show "safe_rep kw (''LIMIT '' @ str_of_int a @ '', '' @ str_of_int b)"
  proof (rule safe_rep_foreign_tail)
    show "\<not> list_ex (ci_eq (hd kw)) (tl (''LIMIT '' @ str_of_int a @ '', '' @ str_of_int b))"
      using f foreign_number[OF assms, of a] foreign_number[OF assms, of b]
      by (auto simp: list_ex_iff)
  qed (use h lb nb L in simp_all)
qed

lemma no_bare_clamp_limit:
  assumes "kept_quoted kw" and "no_bare kw s"
  shows "no_bare kw (clamp_limit s max_limit)"
proof -
  from kept_quoted_word[OF assms(1)] have ne: "kw \<noteq> []" by simp
  have 1: "safe_sub re_limit_offset_count (repl_offset_count max_limit) kw"
    using safe_rep_limit(2)[OF assms(1)] by (simp add: safe_sub_def repl_offset_count_def Let_def)
  have 2: "safe_sub re_limit_single (repl_single max_limit) kw"
    using safe_rep_limit(1)[OF assms(1)] by (simp add: safe_sub_def repl_single_def Let_def)
  show ?thesis unfolding clamp_limit_def Let_def
    using no_bare_sub[OF 2 ne no_bare_sub[OF 1 ne assms(2)]] .
qed

lemma no_bare_unquote_order_dir:
  assumes "kept_quoted kw" and "no_bare kw s"
  shows "no_bare kw (unquote_order_dir s)"
proof -
  from kept_quoted_word[OF assms(1)] have ne: "kw \<noteq> []" by simp
  have wa: "list_all quote_or_word ''ASC''" and wd: "list_all quote_or_word ''DESC''"
    by code_simp+
  have 1: "safe_sub re_quoted_asc (\<lambda>m gs. ''ASC'') kw"
    using kept_quoted_foreign_heads[OF assms(1)] wa
    by (intro safe_sub_const safe_rep_all_blocked) simp_all
  have 2: "safe_sub re_quoted_desc (\<lambda>m gs. ''DESC'') kw"
    using kept_quoted_foreign_heads[OF assms(1)] wd
    by (intro safe_sub_const safe_rep_all_blocked) simp_all
  show ?thesis unfolding unquote_order_dir_def
    using no_bare_sub[OF 2 ne no_bare_sub[OF 1 ne assms(2)]] .
qed

lemma ci_prefix_append_foreign:
  "ci_prefix w (u @ y # ys) \<Longrightarrow> \<not> list_ex (\<lambda>x. ci_eq x y) w \<Longrightarrow> ci_prefix w u"
  by (induction w u rule: ci_prefix.induct) auto

lemma no_bare_append_limit:
  assumes "kept_quoted kw" and "no_bare kw s"
  shows "no_bare kw (s @ '' LIMIT '' @ str_of_int n)"
proof (rule ccontr)
  let ?v = "'' LIMIT '' @ str_of_int n"
  from kept_quoted_word[OF assms(1)] have ne: "kw \<noteq> []" and w: "list_all is_word kw" by simp_all
  have sp: "\<not> list_ex (\<lambda>x. ci_eq x (CHR '' '')) kw"
  proof -
    have "\<not> is_word (CHR '' '')" by code_simp
    then show ?thesis using w ci_eq_word
      by (metis (mono_tags, lifting) ci_eq_def list_all_iff list_ex_iff is_word_lower_char)
  qed
  have fv: "\<not> list_ex (ci_eq (hd kw)) ?v"
    using kept_quoted_first[OF assms(1)] foreign_number[OF assms(1), of n]
    by (simp add: list_ex_iff)
  assume "\<not> no_bare kw (s @ ?v)"
  then have "search_from (re_reserved kw) None (s @ ?v)" by (simp add: no_bare_def re_search_def)
  from search_append[OF this]
  consider u1 u2 where "s = u1 @ u2" "u2 \<noteq> []" "bare kw (ctx None u1) (u2 @ ?v)"
    | "search_from (re_reserved kw) (ctx None s) ?v"
    by (auto simp: match_reserved split: if_splits)
  then show False
  proof cases
    case 1
    then have nb: "\<not> blocked (ctx None u1)" and pre: "ci_prefix kw (u2 @ CHR '' '' # (''LIMIT '' @ str_of_int n))"
      and nx: "\<not> next_blocked (drop (length kw) (u2 @ ?v))"
      by (simp_all add: bare_def)
    from ci_prefix_append_foreign[OF pre sp] have p2: "ci_prefix kw u2" .
    then have len: "length kw \<le> length u2" by (rule ci_prefix_length)
    then have "\<not> next_blocked (drop (length kw) u2)"
      using nx by (cases "drop (length kw) u2") (simp_all add: next_blocked_def)
    with nb p2 have "bare kw (ctx None u1) u2" by (simp add: bare_def)
    with 1(1) have "search_from (re_reserved kw) None s" unfolding search_reserved_iff by blast
    with assms(2) show False by (simp add: no_bare_def re_search_def)
  next
    case 2
    then obtain a b where ab: "?v = a @ b" and b: "bare kw (ctx (ctx None s) a) b"
      unfolding search_reserved_iff by blast
    from b ne have "b \<noteq> []" using bare_Nil by blast
    then obtain y ys where y: "b = y # ys" by (cases b) auto
    from ne obtain k ks where k: "kw = k # ks" by (cases kw) auto
    from b y k have "ci_eq (hd kw) y" by (simp add: bare_def)
    moreover have "y \<in> set ?v" using ab y by (metis in_set_conv_decomp)
    ultimately show False using fv by (auto simp: list_ex_iff)
  qed
qed

lemma no_bare_apply_limit:
  assumes "kept_quoted kw" and "no_bare kw s"
  shows "no_bare kw (apply_limit s max_limit)"
  unfolding apply_limit_def
  using no_bare_append_limit[OF assms] no_bare_clamp_limit[OF assms] by simp

lemma no_bare_normalize_sql_text:
  assumes "kept_quoted kw" and "set order = RESERVED_LIKE"
  shows "no_bare kw (normalize_sql_text order base_sql)"
proof -
  from kept_quoted_word[OF assms(1)] have w: "list_all is_word kw" "kw \<noteq> []" by simp_all
  have "kw \<in> RESERVED_LIKE" using assms(1) by (auto simp: kept_quoted_def RESERVED_LIKE_def)
  then have mem: "kw \<in> set order" using assms(2) by simp
  have wl: "word_list order" using assms(2) by (intro reserved_like_words) simp
  show ?thesis unfolding normalize_sql_text_def
    using no_bare_unquote_order_dir[OF assms(1) no_bare_quote_reserved[OF w wl mem]] .
qed

lemma no_bare_guard_output:
  assumes "kept_quoted kw" and "set order = RESERVED_LIKE"
  shows "no_bare kw (guard_output lib e order dialect max_limit base_sql)"
proof -
  let ?norm = "normalize_sql_text order base_sql"
  have n: "no_bare kw ?norm" using no_bare_normalize_sql_text[OF assms] .
  have s: "\<And>out. single_row_rewrite lib order ?norm dialect = Some out \<Longrightarrow> no_bare kw out"
    using n no_bare_normalize_sql_text[OF assms]
    by (auto simp: single_row_rewrite_def split: option.splits if_splits)
  show ?thesis unfolding guard_output_def Let_def
    using n s no_bare_apply_limit[OF assms(1) n] by (auto split: option.splits)
qed

text \<open>
  In every text the Guard returns, no occurrence of \<open>check\<close>, \<open>key\<close> or
  \<open>user\<close> is left bare: the pattern \<open>(?i)(?<![`\w])kw(?![`\w])\<close> of
  \<open>_quote_reserved_identifiers\<close> finds nothing in it, whatever order the set of reserved
  words is visited in.
\<close>

theorem guard_quotes_reserved:
  assumes "validate_and_rewrite lib e order sql_in dialect m_schema max_limit keep acb = Inr out"
    and "set order = RESERVED_LIKE"
    and "kw = ''check'' \<or> kw = ''key'' \<or> kw = ''user''"
  shows "\<not> re_search (re_reserved kw) out"
proof -
  from guard_accepts[OF assms(1)] obtain base_sql where
    "out = guard_output lib e order dialect max_limit base_sql" by blast
  moreover have "kept_quoted kw" using assms(3) by (simp add: kept_quoted_def)
  ultimately show ?thesis using no_bare_guard_output[OF _ assms(2)] by (simp add: no_bare_def)
qed


definition select_user_from_t :: expr where
  \<comment> \<open>\<open>SELECT user FROM t\<close>\<close>
  "select_user_from_t =
     Expr exp_Select [] [(''expressions'', column ''user''), (''from'', from_table ''t'')]"

definition select_desc_from_t :: expr where
  \<comment> \<open>\<open>SELECT `desc` FROM t\<close>\<close>
  "select_desc_from_t =
     Expr exp_Select [] [(''expressions'', column ''desc''), (''from'', from_table ''t'')]"

definition schema_reserved :: "schema_table list" where
  "schema_reserved = [SchemaTable ''t'' [''user'', ''desc'']]"

definition lib_reserved :: sqlglot where
  "lib_reserved = table_lib
     [(''SELECT user FROM t'', select_user_from_t),
      (''SELECT '' @ [backtick] @ ''user'' @ [backtick] @ '' FROM t'', select_user_from_t),
      (''SELECT '' @ [backtick] @ ''desc'' @ [backtick] @ '' FROM t'', select_desc_from_t)]
     [(select_user_from_t, ''SELECT user FROM t''),
      (select_desc_from_t, ''SELECT '' @ [backtick] @ ''desc'' @ [backtick] @ '' FROM t'')]"

lemma lib_reserved_run:
  "validate_and_rewrite lib_reserved strict_env reserved_order ''SELECT user FROM t''
      ''mysql'' schema_reserved 200 False []
   = Inr (''SELECT '' @ [backtick] @ ''user'' @ [backtick] @ '' FROM t LIMIT 200'')"
  by code_simp

theorem guard_quotes_reserved_witness:
  "validate_and_rewrite lib_reserved strict_env reserved_order ''SELECT user FROM t''
      ''mysql'' schema_reserved 200 False []
     = Inr (''SELECT '' @ [backtick] @ ''user'' @ [backtick] @ '' FROM t LIMIT 200'')
   \<and> set reserved_order = RESERVED_LIKE
   \<and> \<not> re_search (re_reserved ''user'')
         (''SELECT '' @ [backtick] @ ''user'' @ [backtick] @ '' FROM t LIMIT 200'')"
proof -
  have o: "set reserved_order = RESERVED_LIKE"
    by (simp add: reserved_order_def RESERVED_LIKE_def)
  from guard_quotes_reserved[OF lib_reserved_run o, of "''user''"] lib_reserved_run o
  show ?thesis by simp
qed

text \<open>
  C9. The claim has every occurrence of \<open>check\<close>, \<open>desc\<close>, \<open>key\<close> and \<open>user\<close> in the
  returned text wrapped in backticks. \<open>desc\<close> is in \<open>RESERVED_LIKE\<close> and
  \<open>_quote_reserved_identifiers\<close> quotes it, but \<open>_unquote_order_dir\<close>, meant for the
  direction of an ORDER BY, then turns every backtick-quoted \<open>desc\<close> into the bare word
  \<open>DESC\<close>, a column of that name included. For \<open>SELECT `desc` FROM t\<close> the Guard returns
  \<open>SELECT DESC FROM t LIMIT 200\<close>, where the pattern of \<open>_quote_reserved_identifiers\<close> for
  \<open>desc\<close> finds a bare occurrence.
\<close>

theorem guard_unquotes_desc:
  "''desc'' \<in> RESERVED_LIKE
   \<and> validate_and_rewrite lib_reserved strict_env reserved_order
      (''SELECT '' @ [backtick] @ ''desc'' @ [backtick] @ '' FROM t'')
      ''mysql'' schema_reserved 200 False []
     = Inr ''SELECT DESC FROM t LIMIT 200''
   \<and> re_search (re_reserved ''desc'') ''SELECT DESC FROM t LIMIT 200''
   \<and> \<not> contains [backtick] ''SELECT DESC FROM t LIMIT 200''"
  by code_simp

section \<open>The presence check for MUST predicates\<close>

text \<open>
  C2. The claim has an atom compared after normalization, which strips table prefixes.
  The pattern \<open>\b\w+\.\<close> that \<open>normalize_predicate\<close> removes also matches the integer part of
  a decimal number with its point: \<open>t.score >= 1.5\<close> and \<open>score >= 2.5\<close> both become
  \<open>score >= 5\<close>. So \<open>check_predicate_presence\<close> finds the required predicate
  \<open>t.score >= 1.5\<close> in the WHERE condition \<open>score >= 2.5\<close>, although the predicate without
  its table prefix, \<open>score >= 1.5\<close>, does not occur in it.
\<close>

theorem check_predicate_presence_decimal:
  "decompose_predicate_to_atoms ''t.score >= 1.5'' = [''t.score >= 1.5'']
   \<and> normalize_predicate ''t.score >= 1.5'' = ''score >= 5''
   \<and> normalize_predicate ''score >= 2.5'' = ''score >= 5''
   \<and> check_predicate_presence [''score >= 2.5''] ''t.score >= 1.5''
   \<and> \<not> contains ''score >= 1.5'' ''score >= 2.5''"
  by code_simp

section \<open>The column whitelists compare bare names\<close>

definition select_t1_secret :: expr where
  \<comment> \<open>\<open>SELECT t1.secret FROM t1\<close>\<close>
  "select_t1_secret =
     Expr exp_Select []
       [(''expressions'', qualified_column ''t1'' ''secret''), (''from'', from_table ''t1'')]"

definition schema_t1_t2 :: "schema_table list" where
  "schema_t1_t2 = [SchemaTable ''t1'' [''id''], SchemaTable ''t2'' [''secret'']]"

definition contract_t1_t2 :: "(string \<times> string list) list" where
  "contract_t1_t2 = [(''t1'', [''id'']), (''t2'', [''secret''])]"

definition lib_t1 :: sqlglot where
  "lib_t1 = table_lib
     [(''SELECT t1.secret FROM t1'', select_t1_secret)]
     [(select_t1_secret, ''SELECT t1.secret FROM t1'')]"

lemma unauthorized_column_not_allowed:
  assumes "c \<in> set (missing_items (validate_allowed_columns_ast e allowed_columns))"
    and "(t, cs) \<in> set allowed_columns" and "x \<in> set cs"
  shows "c \<noteq> lower x"
  using assms by (fastforce simp: validate_allowed_columns_ast_def Let_def)

lemma unauthorized_column_used:
  assumes "c \<in> set (missing_items (validate_allowed_columns_ast e allowed_columns))"
  shows "\<exists>col \<in> set (find_all e exp_Column). c = lower (node_name col)"
  using assms
  by (auto simp: validate_allowed_columns_ast_def Let_def extract_column_references_def)

lemma validator_passes_on_bare_names:
  assumes "\<forall>col \<in> set (find_all e exp_Column).
             \<exists>(t, cs) \<in> set allowed_columns. lower (node_name col) \<in> set (map lower cs)"
  shows "passed (validate_allowed_columns_ast e allowed_columns)"
proof -
  have "missing_items (validate_allowed_columns_ast e allowed_columns) = []"
  proof (rule ccontr)
    assume "missing_items (validate_allowed_columns_ast e allowed_columns) \<noteq> []"
    then obtain c where c: "c \<in> set (missing_items (validate_allowed_columns_ast e allowed_columns))"
      by (cases "missing_items (validate_allowed_columns_ast e allowed_columns)") auto
    from unauthorized_column_used[OF c] obtain col
      where col: "col \<in> set (find_all e exp_Column)" and eq: "c = lower (node_name col)"
      by blast
    from assms col obtain t cs x where "(t, cs) \<in> set allowed_columns" "x \<in> set cs"
      "lower (node_name col) = lower x"
      by fastforce
    with unauthorized_column_not_allowed[OF c] eq show False by blast
  qed
  then show ?thesis by (simp add: validate_allowed_columns_ast_def Let_def)
qed

lemma guard_passes_on_bare_names:
  assumes "\<forall>col \<in> set (find_all e exp_Column). is_identifier (arg col ''this'') \<longrightarrow>
             (\<exists>(tbl, cols) \<in> set (narrowed acb (table_to_columns m_schema)).
                 normalize_name (node_name (the (arg col ''this''))) \<in> cols)"
  shows "unknown_columns lib env_vars e m_schema acb = {}"
proof -
  have "collect_column_names e \<subseteq> all_allowed_columns m_schema acb"
  proof
    fix c assume "c \<in> collect_column_names e"
    then obtain col where col: "col \<in> set (find_all e exp_Column)"
      and idt: "is_identifier (arg col ''this'')"
      and c: "c = normalize_name (node_name (the (arg col ''this'')))"
      by (auto simp: collect_column_names_def)
    from assms col idt obtain tbl cols
      where "(tbl, cols) \<in> set (narrowed acb (table_to_columns m_schema))"
        and "normalize_name (node_name (the (arg col ''this''))) \<in> cols"
      by blast
    then show "c \<in> all_allowed_columns m_schema acb"
      unfolding all_allowed_columns_def c by force
  qed
  then show ?thesis by (auto simp: unknown_columns_def)
qed

text \<open>
  C7. Both allowed-columns checks compare bare column names and never read the table a
  column node is qualified with. The AST validator passes as soon as the bare name of
  every column node of the tree is in the allowed list of some table of the contract,
  and the Guard finds no unknown column as soon as the bare name of every column node is
  in the (narrowed) column set of some table of the schema. In the instance a reference
  \<open>t1.secret\<close> passes both checks although only \<open>t2\<close> allows \<open>secret\<close>.
\<close>

theorem column_whitelists_ignore_qualifier:
  "((\<forall>col \<in> set (find_all e exp_Column).
        \<exists>(t, cs) \<in> set allowed_columns. lower (node_name col) \<in> set (map lower cs))
      \<longrightarrow> passed (validate_allowed_columns_ast e allowed_columns))
   \<and> ((\<forall>col \<in> set (find_all e exp_Column). is_identifier (arg col ''this'') \<longrightarrow>
          (\<exists>(tbl, cols) \<in> set (narrowed acb (table_to_columns m_schema)).
              normalize_name (node_name (the (arg col ''this''))) \<in> cols))
      \<longrightarrow> unknown_columns lib env_vars e m_schema acb = {})"
  using validator_passes_on_bare_names guard_passes_on_bare_names by blast

theorem column_whitelists_ignore_qualifier_witness:
  "find_all select_t1_secret exp_Column = [qualified_column ''t1'' ''secret'']
   \<and> arg (qualified_column ''t1'' ''secret'') ''table'' = Some (ident ''t1'')
   \<and> map_of contract_t1_t2 ''t1'' = Some [''id'']
   \<and> map_of contract_t1_t2 ''t2'' = Some [''secret'']
   \<and> narrowed contract_t1_t2 (table_to_columns schema_t1_t2) = [(''t1'', {''id''}), (''t2'', {''secret''})]
   \<and> passed (validate_allowed_columns_ast select_t1_secret contract_t1_t2)
   \<and> unknown_columns lib_t1 strict_env select_t1_secret schema_t1_t2 contract_t1_t2 = {}
   \<and> validate_and_rewrite lib_t1 strict_env reserved_order ''SELECT t1.secret FROM t1'' ''mysql''
        schema_t1_t2 200 False contract_t1_t2 = Inr ''SELECT t1.secret FROM t1 LIMIT 200''"
proof -
  have cols: "find_all select_t1_secret exp_Column = [qualified_column ''t1'' ''secret'']"
    by code_simp
  have contract: "contract_t1_t2 = [(''t1'', [''id'']), (''t2'', [''secret''])]"
    by (simp add: contract_t1_t2_def)
  have nar: "narrowed contract_t1_t2 (table_to_columns schema_t1_t2)
               = [(''t1'', {''id''}), (''t2'', {''secret''})]"
    by code_simp
  have facts:
    "lower (node_name (qualified_column ''t1'' ''secret'')) = ''secret''"
    "lower ''secret'' = ''secret''"
    "is_identifier (arg (qualified_column ''t1'' ''secret'') ''this'')"
    "normalize_name (node_name (the (arg (qualified_column ''t1'' ''secret'') ''this''))) = ''secret''"
    "arg (qualified_column ''t1'' ''secret'') ''table'' = Some (ident ''t1'')"
    by code_simp+
  have run: "validate_and_rewrite lib_t1 strict_env reserved_order ''SELECT t1.secret FROM t1'' ''mysql''
        schema_t1_t2 200 False contract_t1_t2 = Inr ''SELECT t1.secret FROM t1 LIMIT 200''"
    by code_simp
  have h1: "\<forall>col \<in> set (find_all select_t1_secret exp_Column).
        \<exists>(t, cs) \<in> set contract_t1_t2. lower (node_name col) \<in> set (map lower cs)"
    by (simp add: cols contract facts)
  have h2: "\<forall>col \<in> set (find_all select_t1_secret exp_Column).
        is_identifier (arg col ''this'') \<longrightarrow>
          (\<exists>(tbl, cols) \<in> set (narrowed contract_t1_t2 (table_to_columns schema_t1_t2)).
              normalize_name (node_name (the (arg col ''this''))) \<in> cols)"
    by (simp add: cols nar facts)
  have m: "map_of contract_t1_t2 ''t1'' = Some [''id'']"
    "map_of contract_t1_t2 ''t2'' = Some [''secret'']"
    by (simp_all add: contract)
  from column_whitelists_ignore_qualifier[of select_t1_secret contract_t1_t2 contract_t1_t2
      schema_t1_t2 lib_t1 strict_env] h1 h2
  have "passed (validate_allowed_columns_ast select_t1_secret contract_t1_t2)"
    "unknown_columns lib_t1 strict_env select_t1_secret schema_t1_t2 contract_t1_t2 = {}"
    by blast+
  with cols nar facts(5) m run show ?thesis by simp
qed

section \<open>Table shortlisting (run\_nl2sql\_clean.py)\<close>

text \<open>
  \<open>score_table_simple\<close> is an argument of the model: it computes with floating-point sums
  over a table of Chinese keywords. A score is a finite float, hence a rational number,
  and \<open>auto_select_tables\<close> only compares scores. \<open>list.sort(key, reverse=True)\<close> is stable:
  entries with equal scores keep their order.
\<close>

definition filter_m_schema :: "schema_table list \<Rightarrow> string list \<Rightarrow> schema_table list" where
  "filter_m_schema m_schema table_names =
     filter (\<lambda>t. table_name t \<in> set table_names) m_schema"

definition auto_select_tables :: "(schema_table \<Rightarrow> string list \<Rightarrow> rat) \<Rightarrow> schema_table list
    \<Rightarrow> string list \<Rightarrow> int \<Rightarrow> schema_table list \<times> (string \<times> rat) list" where
  "auto_select_tables score_table_simple m_schema tokens topk =
     (let scored = sort_key (\<lambda>x. - snd x)
                     (map (\<lambda>t. (table_name t, score_table_simple t tokens)) m_schema);
          dynamic_topk = topk;
          max_score = (if scored \<noteq> [] then snd (hd scored) else 0);
          dynamic_topk = (if max_score \<ge> 10 then min (topk + 4) (int (length scored))
                          else dynamic_topk);
          high_score_count = length (filter (\<lambda>x. snd x \<ge> 5) scored);
          dynamic_topk = (if high_score_count \<ge> 2 then min (topk + 2) (int (length scored))
                          else dynamic_topk);
          top = take (nat (max 1 dynamic_topk)) scored
      in (filter_m_schema m_schema (map fst top), top))"

definition spec_dynamic_topk :: "(string \<times> rat) list \<Rightarrow> int" where
  \<comment> \<open>the specification's words: base 8, plus 4 when the maximum score is at least 10, plus
     2 when at least two tables score at least 5\<close>
  "spec_dynamic_topk scored =
     8 + (if scored \<noteq> [] \<and> Max (set (map snd scored)) \<ge> 10 then 4 else 0)
       + (if length (filter (\<lambda>x. snd x \<ge> 5) scored) \<ge> 2 then 2 else 0)"

definition threat_schema :: "schema_table list" where
  "threat_schema =
     map (\<lambda>n. SchemaTable n [])
       [''threat'', ''threat_log'', ''t3'', ''t4'', ''t5'', ''t6'', ''t7'', ''t8'', ''t9'',
        ''t10'', ''t11'']"

definition threat_scores :: "schema_table \<Rightarrow> string list \<Rightarrow> rat" where
  \<comment> \<open>the scores \<open>score_table_simple\<close> gives the tables of \<open>threat_schema\<close> for the tokens
     \<open>["threat"]\<close>: 10 + 5 + 1 + 15 for the table named by the token, 5 + 1 for the table
     with the token as a part of its name, 0 for the others\<close>
  "threat_scores t tokens =
     (if table_name t = ''threat'' then 31 else if table_name t = ''threat_log'' then 6 else 0)"

definition ranked :: "(schema_table \<Rightarrow> string list \<Rightarrow> rat) \<Rightarrow> schema_table list \<Rightarrow> string list
    \<Rightarrow> (string \<times> rat) list" where
  "ranked score_table_simple m_schema tokens =
     sort_key (\<lambda>x. - snd x) (map (\<lambda>t. (table_name t, score_table_simple t tokens)) m_schema)"

text \<open>
  C10. When at least two tables score at least 5, the second adjustment assigns
  \<open>min (topk + 2) n\<close> and so discards the first: the list returned is the ranking cut
  to \<open>topk + 2\<close> entries, also when the maximum score is at least 10. For eleven tables,
  one of score 31 and one of score 6, and \<open>topk = 8\<close> the code returns ten entries, where
  K = 8 + 4 + 2 = 14 keeps all eleven.
\<close>

theorem auto_select_tables_second_adjustment_overwrites:
  assumes "length (filter (\<lambda>x. snd x \<ge> 5) (ranked score_table_simple m_schema tokens)) \<ge> 2"
  shows "snd (auto_select_tables score_table_simple m_schema tokens topk)
           = take (nat (max 1 (topk + 2))) (ranked score_table_simple m_schema tokens)"
proof -
  let ?r = "ranked score_table_simple m_schema tokens"
  have "take (nat (max 1 (min (topk + 2) (int (length ?r))))) ?r
          = take (nat (max 1 (topk + 2))) ?r"
  proof (cases "topk + 2 \<le> int (length ?r)")
    case True
    then show ?thesis by (simp add: min_def)
  next
    case False
    then have "length ?r \<le> nat (max 1 (min (topk + 2) (int (length ?r))))"
      "length ?r \<le> nat (max 1 (topk + 2))"
      by (simp_all add: min_def max_def)
    then show ?thesis by simp
  qed
  with assms show ?thesis
    by (simp add: auto_select_tables_def ranked_def Let_def)
qed

theorem auto_select_tables_second_adjustment_overwrites_witness:
  "ranked threat_scores threat_schema [''threat'']
     = [(''threat'', 31), (''threat_log'', 6), (''t3'', 0), (''t4'', 0), (''t5'', 0), (''t6'', 0),
        (''t7'', 0), (''t8'', 0), (''t9'', 0), (''t10'', 0), (''t11'', 0)]
   \<and> snd (auto_select_tables threat_scores threat_schema [''threat''] 8)
     = [(''threat'', 31), (''threat_log'', 6), (''t3'', 0), (''t4'', 0), (''t5'', 0), (''t6'', 0),
        (''t7'', 0), (''t8'', 0), (''t9'', 0), (''t10'', 0)]
   \<and> spec_dynamic_topk (ranked threat_scores threat_schema [''threat'']) = 14
   \<and> take (nat (spec_dynamic_topk (ranked threat_scores threat_schema [''threat''])))
        (ranked threat_scores threat_schema [''threat''])
     = ranked threat_scores threat_schema [''threat'']"
proof -
  have r: "ranked threat_scores threat_schema [''threat'']
     = [(''threat'', 31), (''threat_log'', 6), (''t3'', 0), (''t4'', 0), (''t5'', 0), (''t6'', 0),
        (''t7'', 0), (''t8'', 0), (''t9'', 0), (''t10'', 0), (''t11'', 0)]"
    by code_simp
  have k: "spec_dynamic_topk (ranked threat_scores threat_schema [''threat'']) = 14"
    unfolding r by (simp add: spec_dynamic_topk_def)
  have h: "length (filter (\<lambda>x. snd x \<ge> 5) (ranked threat_scores threat_schema [''threat''])) \<ge> 2"
    unfolding r by simp
  from auto_select_tables_second_adjustment_overwrites[OF h, of 8]
  show ?thesis unfolding k unfolding r by simp
qed

section \<open>Planner failures\<close>

definition parse_plan :: "(string \<Rightarrow> 'j option) \<Rightarrow> ('j \<Rightarrow> 'j plan_v1 option) \<Rightarrow> string
    \<Rightarrow> 'j plan_v1 option" where
  \<comment> \<open>\<open>PlanV1(**json.loads(json_str))\<close>; \<open>None\<close> when either call raises\<close>
  "parse_plan json_loads validate json_str =
     (case json_loads json_str of None \<Rightarrow> None | Some plan_data \<Rightarrow> validate plan_data)"

definition response_fails :: "(string \<Rightarrow> 'j option) \<Rightarrow> ('j \<Rightarrow> 'j plan_v1 option) \<Rightarrow> string \<Rightarrow> bool" where
  \<comment> \<open>the response holds a JSON object text that fails JSON parsing or violates the schema\<close>
  "response_fails json_loads validate raw =
     (case re_find re_json_object raw of
        None \<Rightarrow> False
      | Some json_str \<Rightarrow> parse_plan json_loads validate json_str = None)"

definition first_plan :: "(string \<Rightarrow> 'j option) \<Rightarrow> ('j \<Rightarrow> 'j plan_v1 option) \<Rightarrow> string
    \<Rightarrow> 'j plan_v1 option" where
  "first_plan json_loads validate raw =
     (case re_find re_json_object raw of
        None \<Rightarrow> None
      | Some json_str \<Rightarrow> parse_plan json_loads validate json_str)"

definition plan_json :: string where
  \<comment> \<open>\<open>{"task": "count", "must_tables": ["t", "ghost"], "must_predicates": ["t.a IS NOT NULL"]}\<close>\<close>
  "plan_json = [CHR ''{'', CHR 0x22] @ ''task'' @ [CHR 0x22] @ '': '' @ [CHR 0x22] @ ''count''
     @ [CHR 0x22] @ '', '' @ [CHR 0x22] @ ''must_tables'' @ [CHR 0x22] @ '': ['' @ [CHR 0x22]
     @ ''t'' @ [CHR 0x22] @ '', '' @ [CHR 0x22] @ ''ghost'' @ [CHR 0x22] @ ''], '' @ [CHR 0x22]
     @ ''must_predicates'' @ [CHR 0x22] @ '': ['' @ [CHR 0x22] @ ''t.a IS NOT NULL''
     @ [CHR 0x22] @ '']}''"

definition count_plan :: "unit plan_v1" where
  \<comment> \<open>the plan pydantic builds from \<open>plan_json\<close>\<close>
  "count_plan = PlanV1 \<lparr> task := task_count, must_tables := [''t'', ''ghost''],
                          must_predicates := [''t.a IS NOT NULL''] \<rparr>"

definition sample_loads :: "string \<Rightarrow> unit option" where
  \<comment> \<open>\<open>json.loads\<close> on the texts of the instances: \<open>plan_json\<close> parses, \<open>{oops}\<close> does not\<close>
  "sample_loads s = (if s = plan_json then Some () else None)"

definition sample_validate :: "unit \<Rightarrow> unit plan_v1 option" where
  "sample_validate d = Some count_plan"

definition printing :: "message \<Rightarrow> bool" where
  \<comment> \<open>a standard output that encodes every message\<close>
  "printing m = True"

definition not_printing :: "message \<Rightarrow> bool" where
  \<comment> \<open>a standard output that cannot encode the messages\<close>
  "not_printing m = False"

lemma report_prints:
  "\<forall>m. prints m \<Longrightarrow> report prints retried plan = Some plan"
  by (simp add: report_def)

lemma handlers_print:
  "\<forall>m. prints m \<Longrightarrow> generic_handler prints = Some PlanV1"
  "\<forall>m. prints m \<Longrightarrow> json_handler prints raw = Some PlanV1"
  by (simp_all add: generic_handler_def json_handler_def)

text \<open>
  C8. When every \<open>print\<close> of \<open>llm_plan\<close> returns, \<open>llm_plan\<close> does not raise, unless its first
  \<open>_chat_once\<close> call raises \<open>JSONDecodeError\<close>. A first response without a JSON object, or
  whose JSON object text fails JSON parsing or violates the schema, then gives the
  default plan, and so does a retry response whose JSON object text fails parsing or
  violates the schema. A retry response without a JSON object does not: the plan of the
  first response is returned, cleaned. The default plan has task \<open>list\<close>, subject \<open>app\<close>
  and empty MUST, SHOULD and MAY lists.
\<close>

theorem llm_plan_failure_default:
  assumes "\<forall>m. prints m"
  shows "(first_call \<noteq> Raises_JSONDecodeError
      \<longrightarrow> llm_plan prints json_loads validate allowed_tables first_call retry_call \<noteq> None)
   \<and> (re_find re_json_object raw = None \<or> response_fails json_loads validate raw
      \<longrightarrow> llm_plan prints json_loads validate allowed_tables (Response raw) retry_call
            = Some PlanV1)
   \<and> (first_plan json_loads validate raw = Some plan \<and> need_retry allowed_tables plan
        \<and> response_fails json_loads validate raw_retry
      \<longrightarrow> llm_plan prints json_loads validate allowed_tables (Response raw) (Response raw_retry)
            = Some PlanV1)
   \<and> (first_plan json_loads validate raw = Some plan \<and> need_retry allowed_tables plan
        \<and> re_find re_json_object raw_retry = None
      \<longrightarrow> llm_plan prints json_loads validate allowed_tables (Response raw) (Response raw_retry)
            = Some (clean_plan allowed_tables plan))
   \<and> task (PlanV1 :: 'j plan_v1) = task_list \<and> subject (PlanV1 :: 'j plan_v1) = subject_app
   \<and> must_tables (PlanV1 :: 'j plan_v1) = [] \<and> must_joins (PlanV1 :: 'j plan_v1) = []
   \<and> must_predicates (PlanV1 :: 'j plan_v1) = []
   \<and> should_predicates (PlanV1 :: 'j plan_v1) = [] \<and> should_projection (PlanV1 :: 'j plan_v1) = []
   \<and> should_tables (PlanV1 :: 'j plan_v1) = []
   \<and> may_projection (PlanV1 :: 'j plan_v1) = [] \<and> may_predicates (PlanV1 :: 'j plan_v1) = []"
proof -
  note h = handlers_print[OF assms] report_prints[OF assms]
  have p: "\<And>m. prints m" using assms by simp
  have 0: "first_call \<noteq> Raises_JSONDecodeError
      \<longrightarrow> llm_plan prints json_loads validate allowed_tables first_call retry_call \<noteq> None"
    by (simp add: llm_plan_def h p split: chat_result.splits option.splits)
  have 1: "re_find re_json_object raw = None \<or> response_fails json_loads validate raw
      \<longrightarrow> llm_plan prints json_loads validate allowed_tables (Response raw) retry_call
            = Some PlanV1"
    by (auto simp: llm_plan_def response_fails_def parse_plan_def h p split: option.splits)
  have 2: "first_plan json_loads validate raw = Some plan \<and> need_retry allowed_tables plan
        \<and> response_fails json_loads validate raw_retry
      \<longrightarrow> llm_plan prints json_loads validate allowed_tables (Response raw) (Response raw_retry)
            = Some PlanV1"
    by (auto simp: llm_plan_def response_fails_def first_plan_def parse_plan_def h p
             split: option.splits)
  have 3: "first_plan json_loads validate raw = Some plan \<and> need_retry allowed_tables plan
        \<and> re_find re_json_object raw_retry = None
      \<longrightarrow> llm_plan prints json_loads validate allowed_tables (Response raw) (Response raw_retry)
            = Some (clean_plan allowed_tables plan)"
    by (auto simp: llm_plan_def first_plan_def parse_plan_def h p split: option.splits)
  from 0 1 2 3 show ?thesis by (simp add: PlanV1_def)
qed

theorem llm_plan_failure_default_witness:
  "(\<forall>m. printing m)
   \<and> re_find re_json_object ''no plan, sorry'' = None
   \<and> llm_plan printing sample_loads sample_validate [''t''] (Response ''no plan, sorry'')
        Raises_other = Some PlanV1
   \<and> response_fails sample_loads sample_validate ''Plan: {oops}''
   \<and> llm_plan printing sample_loads sample_validate [''t''] (Response ''Plan: {oops}'')
        Raises_other = Some PlanV1
   \<and> first_plan sample_loads sample_validate plan_json = Some count_plan
   \<and> need_retry [''t''] count_plan
   \<and> llm_plan printing sample_loads sample_validate [''t''] (Response plan_json)
        (Response ''Plan: {oops}'') = Some PlanV1
   \<and> llm_plan printing sample_loads sample_validate [''t''] (Response plan_json)
        (Response ''no plan, sorry'') = Some (clean_plan [''t''] count_plan)"
proof -
  have pr: "\<forall>m. printing m" by (simp add: printing_def)
  have a: "re_find re_json_object ''no plan, sorry'' = None"
    by code_simp
  have b: "response_fails sample_loads sample_validate ''Plan: {oops}''"
    by code_simp
  have c: "first_plan sample_loads sample_validate plan_json = Some count_plan"
    by code_simp
  have d: "need_retry [''t''] count_plan"
    by code_simp
  note t = llm_plan_failure_default[OF pr, where json_loads = sample_loads
      and validate = sample_validate and allowed_tables = "[''t'']" and plan = count_plan]
  from t[where raw = "''no plan, sorry''" and retry_call = Raises_other] a
  have 1: "llm_plan printing sample_loads sample_validate [''t''] (Response ''no plan, sorry'')
             Raises_other = Some PlanV1"
    by blast
  from t[where raw = "''Plan: {oops}''" and retry_call = Raises_other] b
  have 2: "llm_plan printing sample_loads sample_validate [''t''] (Response ''Plan: {oops}'')
             Raises_other = Some PlanV1"
    by blast
  from t[where raw = plan_json and raw_retry = "''Plan: {oops}''"] b c d
  have 3: "llm_plan printing sample_loads sample_validate [''t''] (Response plan_json)
             (Response ''Plan: {oops}'') = Some PlanV1"
    by blast
  from t[where raw = plan_json and raw_retry = "''no plan, sorry''"] a c d
  have 4: "llm_plan printing sample_loads sample_validate [''t''] (Response plan_json)
             (Response ''no plan, sorry'') = Some (clean_plan [''t''] count_plan)"
    by blast
  from pr a b c d 1 2 3 4 show ?thesis by simp
qed

text \<open>
  The claim as stated fails in two ways. A retry response without a JSON object gives
  the cleaned plan of the first response, here with task \<open>count\<close> and non-empty MUST
  lists. And when standard output cannot encode the messages, the \<open>print\<close> of the handler
  raises and nothing catches it: \<open>llm_plan\<close> raises on a response without a JSON object.
\<close>

theorem retry_without_json_counterexample:
  "re_find re_json_object ''no plan, sorry'' = None
   \<and> llm_plan printing sample_loads sample_validate [''t''] (Response plan_json)
        (Response ''no plan, sorry'') \<noteq> Some PlanV1
   \<and> map_option task (llm_plan printing sample_loads sample_validate [''t''] (Response plan_json)
        (Response ''no plan, sorry'')) = Some task_count
   \<and> map_option must_tables (llm_plan printing sample_loads sample_validate [''t'']
        (Response plan_json) (Response ''no plan, sorry'')) = Some [''t'']
   \<and> map_option must_predicates (llm_plan printing sample_loads sample_validate [''t'']
        (Response plan_json) (Response ''no plan, sorry'')) = Some [''t.a IS NOT NULL'']
   \<and> llm_plan not_printing sample_loads sample_validate [''t''] (Response ''no plan, sorry'')
        Raises_other = None"
  by code_simp

section \<open>Applying the Guard to its own output\<close>

lemma placeholder_rejected:
  assumes "re_search re_placeholder (remove_comments sql_in)"
    and "\<not> re_search re_cjk (remove_comments sql_in)"
  shows "validate_and_rewrite lib e order sql_in dialect m_schema max_limit keep acb
           = Inl Placeholder"
  using assms by (simp add: validate_and_rewrite_def Let_def)

definition placeholder_literal :: string where
  \<comment> \<open>\<open>specific_`asc`\<close>\<close>
  "placeholder_literal = ''specific_'' @ [backtick] @ ''asc'' @ [backtick]"

text \<open>
  C6. The claim has the Guard accept its own output and return it unchanged. The query
  \<open>SELECT a FROM t WHERE b = 'specific_`asc`'\<close> passes the placeholder check, since a
  backtick follows \<open>specific_\<close>; \<open>_unquote_order_dir\<close> rewrites the quoted \<open>asc\<close> inside the
  literal, and the Guard returns \<open>SELECT a FROM t WHERE b = 'specific_ASC' LIMIT 200\<close>. On
  that text the placeholder check \<open>specific_\w+\<close> fires: the second application raises,
  whatever the library does.
\<close>

theorem guard_rejects_its_output:
  "validate_and_rewrite (lib_literal placeholder_literal) strict_env reserved_order
        (select_a_where_b_is_text placeholder_literal) ''mysql'' schema_t 200 False []
      = Inr (select_a_where_b_is_text ''specific_ASC'' @ '' LIMIT 200'')
   \<and> validate_and_rewrite lib strict_env reserved_order
        (select_a_where_b_is_text ''specific_ASC'' @ '' LIMIT 200'') ''mysql'' schema_t 200 False []
      = Inl Placeholder"
proof -
  have 1: "validate_and_rewrite (lib_literal placeholder_literal) strict_env reserved_order
        (select_a_where_b_is_text placeholder_literal) ''mysql'' schema_t 200 False []
      = Inr (select_a_where_b_is_text ''specific_ASC'' @ '' LIMIT 200'')"
    by code_simp
  have 2: "re_search re_placeholder
             (remove_comments (select_a_where_b_is_text ''specific_ASC'' @ '' LIMIT 200''))"
    by code_simp
  have 3: "\<not> re_search re_cjk
             (remove_comments (select_a_where_b_is_text ''specific_ASC'' @ '' LIMIT 200''))"
    by code_simp
  from 1 placeholder_rejected[OF 2 3] show ?thesis by simp
qed

section \<open>Minimal repair\<close>




























end
